theory Spec2Isabelle
  imports Complex_Main "HOL-Library.Multiset"
begin

section \<open>Boards of the sliding-tile puzzle (main.go)\<close>

text \<open>
  Go's \<open>int\<close> is modelled by \<open>int\<close>: on the 64-bit platforms the program is written for,
  no index or counter of a board that exists can wrap around. Where the program computes
  with a number that it was handed and that no existing board bounds (the size given to
  \<open>NewBoard\<close> and \<open>NewBoardRand\<close>, the diffs given to \<open>AcceptCandidate\<close>), the result is
  wrapped to 64 bits with \<open>wrap64\<close>.
  A run-time panic of the Go program is a value of type \<open>error\<close>; a function that may
  panic returns \<open>error + 'a\<close>, with \<open>Inl\<close> for the panic.
\<close>

datatype error =
    SizeMismatch        \<comment> \<open>\<open>panic("boards must be of the same size")\<close>\<close>
  | IndexOutOfRange     \<comment> \<open>index or slice bounds out of range\<close>
  | NilDereference      \<comment> \<open>a field of a nil \<open>*Board\<close> is read\<close>
  | MakeSliceLen        \<comment> \<open>\<open>make\<close> with a length that it does not serve\<close>
  | InvalidArgument     \<comment> \<open>\<open>rand.Intn\<close> with an argument that is not positive\<close>

record Board =
  size :: int
  state :: "int list list"

text \<open>The value of an \<open>int\<close> expression whose mathematical value is \<open>x\<close>.\<close>

definition wrap64 :: "int \<Rightarrow> int" where
  "wrap64 x = (x + 2 ^ 63) mod 2 ^ 64 - 2 ^ 63"

definition bindE :: "error + 'a \<Rightarrow> ('a \<Rightarrow> error + 'b) \<Rightarrow> error + 'b" where
  "bindE m f = (case m of Inl e \<Rightarrow> Inl e | Inr x \<Rightarrow> f x)"

text \<open>Indexing a slice, \<open>xs[i]\<close>: Go panics when \<open>i\<close> is out of range.\<close>

definition idx :: "'a list \<Rightarrow> int \<Rightarrow> error + 'a" where
  "idx xs i = (if 0 \<le> i \<and> i < int (length xs) then Inr (xs ! nat i) else Inl IndexOutOfRange)"

text \<open>The expression \<open>b.state[i][j]\<close>.\<close>

definition cell :: "Board \<Rightarrow> int \<Rightarrow> int \<Rightarrow> error + int" where
  "cell b i j = bindE (idx (state b) i) (\<lambda>row. idx row j)"

subsection \<open>Slices\<close>

text \<open>
  \<open>make([]T, n)\<close> where \<open>n\<close> is the length of a slice that exists (in \<open>Copy\<close>): a slice of
  \<open>n\<close> zero values; a negative length panics.
\<close>

definition make_slice :: "'a \<Rightarrow> int \<Rightarrow> error + 'a list" where
  "make_slice z n = (if n < 0 then Inl MakeSliceLen else Inr (replicate (nat n) z))"

text \<open>
  \<open>make([]T, n)\<close> where \<open>n\<close> is a number that the caller chose. The run-time system panics
  for a negative length and for a length above its allocation limit, and the program
  dies when the memory is not there. Which lengths it serves is not in the program: it
  is the oracle \<open>serves\<close>, one for each element type that the program allocates in this way.
\<close>

record Runtime =
  serves_rows :: "int \<Rightarrow> bool"   \<comment> \<open>\<open>make([][]int, n)\<close> is served\<close>
  serves_ints :: "int \<Rightarrow> bool"   \<comment> \<open>\<open>make([]int, n)\<close> is served\<close>

definition make_sized :: "(int \<Rightarrow> bool) \<Rightarrow> 'a \<Rightarrow> int \<Rightarrow> error + 'a list" where
  "make_sized serves z n =
     (if n < 0 \<or> \<not> serves n then Inl MakeSliceLen else Inr (replicate (nat n) z))"

text \<open>The assignment \<open>xs[i] = v\<close>.\<close>

definition set_at :: "'a list \<Rightarrow> int \<Rightarrow> 'a \<Rightarrow> error + 'a list" where
  "set_at xs i v = (if 0 \<le> i \<and> i < int (length xs) then Inr (xs[nat i := v]) else Inl IndexOutOfRange)"

subsection \<open>NewBoard\<close>

function NewBoard_cols :: "int \<Rightarrow> int \<Rightarrow> int \<Rightarrow> int list \<Rightarrow> error + int list" where
  "NewBoard_cols n i j row =
     (if j < n then bindE (set_at row j (wrap64 (wrap64 (i * n) + j))) (\<lambda>row'. NewBoard_cols n i (j + 1) row')
      else Inr row)"
  by pat_completeness auto
termination
  by (relation "measure (\<lambda>(n, i, j, row). nat (n - j))") auto

function NewBoard_rows ::
  "Runtime \<Rightarrow> int \<Rightarrow> int \<Rightarrow> int list list \<Rightarrow> error + int list list" where
  "NewBoard_rows rt n i st =
     (if i < n then
        bindE (make_sized (serves_ints rt) 0 n) (\<lambda>row0.
        bindE (NewBoard_cols n i 0 row0) (\<lambda>row.
        bindE (set_at st i row) (\<lambda>st'. NewBoard_rows rt n (i + 1) st')))
      else Inr st)"
  by pat_completeness auto
termination
  by (relation "measure (\<lambda>(rt, n, i, st). nat (n - i))") auto

definition NewBoard :: "Runtime \<Rightarrow> int \<Rightarrow> error + Board" where
  "NewBoard rt n =
     bindE (make_sized (serves_rows rt) [] n) (\<lambda>st0.
     bindE (NewBoard_rows rt n 0 st0) (\<lambda>st. Inr \<lparr>size = n, state = st\<rparr>))"

subsection \<open>DiffN\<close>

function DiffN_cols :: "Board \<Rightarrow> Board \<Rightarrow> int \<Rightarrow> int \<Rightarrow> int \<Rightarrow> error + int" where
  "DiffN_cols b target i j c =
     (if j < size b then
        bindE (cell b i j) (\<lambda>x.
          if x = 0 then DiffN_cols b target i (j + 1) c
          else bindE (cell target i j) (\<lambda>y.
            DiffN_cols b target i (j + 1) (if x \<noteq> y then c + 1 else c)))
      else Inr c)"
  by pat_completeness auto
termination
  by (relation "measure (\<lambda>(b, target, i, j, c). nat (size b - j))") auto

function DiffN_rows :: "Board \<Rightarrow> Board \<Rightarrow> int \<Rightarrow> int \<Rightarrow> error + int" where
  "DiffN_rows b target i c =
     (if i < size b then bindE (DiffN_cols b target i 0 c) (\<lambda>c'. DiffN_rows b target (i + 1) c')
      else Inr c)"
  by pat_completeness auto
termination
  by (relation "measure (\<lambda>(b, target, i, c). nat (size b - i))") auto

definition DiffN :: "Board \<Rightarrow> Board \<Rightarrow> error + int" where
  "DiffN b target =
     (if size b \<noteq> size target then Inl SizeMismatch else DiffN_rows b target 0 0)"


subsection \<open>tileIndx\<close>

text \<open>
  The inner loop returns \<open>Some (i, j, True)\<close> when the function returns from inside the
  loop and \<open>None\<close> when the loop runs to its end.
\<close>

function tileIndx_cols :: "Board \<Rightarrow> int \<Rightarrow> int \<Rightarrow> int \<Rightarrow> error + (int \<times> int \<times> bool) option" where
  "tileIndx_cols b n i j =
     (if j < size b then
        bindE (cell b i j) (\<lambda>x.
          if x = n then Inr (Some (i, j, True)) else tileIndx_cols b n i (j + 1))
      else Inr None)"
  by pat_completeness auto
termination
  by (relation "measure (\<lambda>(b, n, i, j). nat (size b - j))") auto

function tileIndx_rows :: "Board \<Rightarrow> int \<Rightarrow> int \<Rightarrow> error + (int \<times> int \<times> bool)" where
  "tileIndx_rows b n i =
     (if i < size b then
        bindE (tileIndx_cols b n i 0) (\<lambda>r.
          case r of Some found \<Rightarrow> Inr found | None \<Rightarrow> tileIndx_rows b n (i + 1))
      else Inr (- 1, - 1, False))"
  by pat_completeness auto
termination
  by (relation "measure (\<lambda>(b, n, i). nat (size b - i))") auto

definition tileIndx :: "Board \<Rightarrow> int \<Rightarrow> error + (int \<times> int \<times> bool)" where
  "tileIndx b n = tileIndx_rows b n 0"

subsection \<open>Copy\<close>

text \<open>The builtin \<open>copy(dst, src)\<close> overwrites the first \<open>min (len dst) (len src)\<close> elements.\<close>

definition copy_slice :: "'a list \<Rightarrow> 'a list \<Rightarrow> 'a list" where
  "copy_slice dst src =
     (let k = min (length dst) (length src) in take k src @ drop k dst)"

function Copy_rows :: "Board \<Rightarrow> int \<Rightarrow> int \<Rightarrow> int list list \<Rightarrow> error + int list list" where
  "Copy_rows b s i st =
     (if i < s then
        bindE (make_slice 0 s) (\<lambda>row.
        bindE (set_at st i row) (\<lambda>st1.
        bindE (idx st1 i) (\<lambda>dst.
        bindE (idx (state b) i) (\<lambda>src.
        bindE (set_at st1 i (copy_slice dst src)) (\<lambda>st2.
          Copy_rows b s (i + 1) st2)))))
      else Inr st)"
  by pat_completeness auto
termination
  by (relation "measure (\<lambda>(b, s, i, st). nat (s - i))") auto

definition Copy :: "Board \<Rightarrow> error + Board" where
  "Copy b =
     (let s = size b in
      bindE (make_slice [] s) (\<lambda>st0.
      bindE (Copy_rows b s 0 st0) (\<lambda>st. Inr \<lparr>size = s, state = st\<rparr>)))"

subsection \<open>FindNeighbors\<close>

text \<open>The assignment \<open>c.state[i][j] = v\<close>.\<close>

definition set_cell :: "Board \<Rightarrow> int \<Rightarrow> int \<Rightarrow> int \<Rightarrow> error + Board" where
  "set_cell c i j v =
     bindE (idx (state c) i) (\<lambda>row.
     bindE (set_at row j v) (\<lambda>row'.
     bindE (set_at (state c) i row') (\<lambda>st. Inr (c\<lparr>state := st\<rparr>))))"

text \<open>
  One direction of \<open>FindNeighbors\<close>: \<open>c := b.Copy()\<close>, then the tuple assignment
  \<open>c.state[i][j], c.state[i'][j'] = b.state[i'][j'], b.state[i][j]\<close>, whose right-hand
  sides are read before either cell is written, then \<open>ns = append(ns, c)\<close>.
\<close>

definition swapped :: "Board \<Rightarrow> int \<Rightarrow> int \<Rightarrow> int \<Rightarrow> int \<Rightarrow> error + Board" where
  "swapped b i j i' j' =
     bindE (Copy b) (\<lambda>c.
     bindE (cell b i' j') (\<lambda>v1.
     bindE (cell b i j) (\<lambda>v2.
     bindE (set_cell c i j v1) (\<lambda>c1. set_cell c1 i' j' v2))))"

definition append_swapped ::
  "bool \<Rightarrow> Board \<Rightarrow> int \<Rightarrow> int \<Rightarrow> int \<Rightarrow> int \<Rightarrow> Board list \<Rightarrow> error + Board list" where
  "append_swapped inside b i j i' j' ns =
     (if inside then bindE (swapped b i j i' j') (\<lambda>c. Inr (ns @ [c])) else Inr ns)"

text \<open>The result slice \<open>ns\<close> is nil exactly when it is empty: it starts nil and only grows.\<close>

definition FindNeighbors :: "Board \<Rightarrow> int \<Rightarrow> error + Board list" where
  "FindNeighbors b x =
     bindE (tileIndx b x) (\<lambda>(i, j, ok).
       if \<not> ok then Inr []
       else
         bindE (append_swapped (i - 1 \<ge> 0) b i j (i - 1) j []) (\<lambda>ns1.
         bindE (append_swapped (i + 1 < size b) b i j (i + 1) j ns1) (\<lambda>ns2.
         bindE (append_swapped (j - 1 \<ge> 0) b i j i (j - 1) ns2) (\<lambda>ns3.
         append_swapped (j + 1 < size b) b i j i (j + 1) ns3))))"

subsection \<open>float64\<close>

text \<open>
  A \<open>float64\<close> is a real number, an infinity or NaN. The two zeros are one value
  here: the program compares with zero, where they are equal, and never divides by one.
  Comparison and negation are exact. The operations that round (the conversion
  \<open>float64(x)\<close> of an \<open>int\<close>, the product and the quotient) and \<open>math.Exp\<close> are not part
  of the program: they are the fields of an arithmetic, and a statement holds for every
  arithmetic unless it names one.
\<close>

datatype float64 = Finite real | PosInf | NegInf | NaN

fun f64_less :: "float64 \<Rightarrow> float64 \<Rightarrow> bool" where
  "f64_less (Finite x) (Finite y) = (x < y)"
| "f64_less (Finite x) PosInf = True"
| "f64_less NegInf (Finite y) = True"
| "f64_less NegInf PosInf = True"
| "f64_less _ _ = False"

fun f64_neg :: "float64 \<Rightarrow> float64" where
  "f64_neg (Finite x) = Finite (- x)"
| "f64_neg PosInf = NegInf"
| "f64_neg NegInf = PosInf"
| "f64_neg NaN = NaN"

record Arith =
  f64_of_int :: "int \<Rightarrow> float64"                  \<comment> \<open>\<open>float64(x)\<close>\<close>
  f64_mul :: "float64 \<Rightarrow> float64 \<Rightarrow> float64"      \<comment> \<open>\<open>x * y\<close>\<close>
  f64_div :: "float64 \<Rightarrow> float64 \<Rightarrow> float64"      \<comment> \<open>\<open>x / y\<close>\<close>
  math_Exp :: "float64 \<Rightarrow> float64"                  \<comment> \<open>\<open>math.Exp(x)\<close>\<close>

subsection \<open>The random source (math/rand)\<close>

text \<open>
  The global generator of \<open>math/rand\<close> is an oracle: the sequence of values its calls
  return, and the number of calls made so far. \<open>ints\<close> feeds \<open>rand.Intn\<close>, \<open>floats\<close>
  feeds \<open>rand.Float64\<close> and \<open>perms\<close> feeds \<open>rand.Perm\<close>. The library promises that
  \<open>Float64\<close> lies in \<open>[0, 1)\<close> and that \<open>Perm n\<close> is a permutation of \<open>0 .. n - 1\<close>, each
  permutation being as likely as any other; the statements that need these promises
  assume them. \<open>rand.Perm\<close> begins with \<open>make([]int, n)\<close>.
\<close>

record Rand =
  ints :: "nat \<Rightarrow> nat"
  floats :: "nat \<Rightarrow> real"
  perms :: "nat \<Rightarrow> int list"
  calls :: nat

definition Intn :: "Rand \<Rightarrow> int \<Rightarrow> error + (int \<times> Rand)" where
  "Intn g n =
     (if n \<le> 0 then Inl InvalidArgument
      else Inr (int (ints g (calls g) mod nat n), g\<lparr>calls := calls g + 1\<rparr>))"

definition Float64 :: "Rand \<Rightarrow> float64 \<times> Rand" where
  "Float64 g = (Finite (floats g (calls g)), g\<lparr>calls := calls g + 1\<rparr>)"

definition Perm :: "Runtime \<Rightarrow> Rand \<Rightarrow> int \<Rightarrow> error + (int list \<times> Rand)" where
  "Perm rt g n =
     bindE (make_sized (serves_ints rt) (0 :: int) n) (\<lambda>m.
       Inr (perms g (calls g), g\<lparr>calls := calls g + 1\<rparr>))"

subsection \<open>NewBoardRand\<close>

text \<open>The slice expression \<open>xs[lo:hi]\<close> of a slice whose capacity is its length.\<close>

definition slice :: "'a list \<Rightarrow> int \<Rightarrow> int \<Rightarrow> error + 'a list" where
  "slice xs lo hi =
     (if 0 \<le> lo \<and> lo \<le> hi \<and> hi \<le> int (length xs)
      then Inr (take (nat (hi - lo)) (drop (nat lo) xs))
      else Inl IndexOutOfRange)"

function NewBoardRand_rows :: "int \<Rightarrow> int list \<Rightarrow> int \<Rightarrow> int list list \<Rightarrow> error + int list list" where
  "NewBoardRand_rows n pieces i st =
     (if i < n then
        bindE (slice pieces (wrap64 (i * n)) (wrap64 (wrap64 (i * n) + n))) (\<lambda>row.
        bindE (set_at st i row) (\<lambda>st'. NewBoardRand_rows n pieces (i + 1) st'))
      else Inr st)"
  by pat_completeness auto
termination
  by (relation "measure (\<lambda>(n, pieces, i, st). nat (n - i))") auto

definition NewBoardRand :: "Runtime \<Rightarrow> Rand \<Rightarrow> int \<Rightarrow> error + (Board \<times> Rand)" where
  "NewBoardRand rt g n =
     bindE (make_sized (serves_rows rt) [] n) (\<lambda>st0.
     bindE (Perm rt g (wrap64 (n * n))) (\<lambda>(pieces, g').
     bindE (NewBoardRand_rows n pieces 0 st0) (\<lambda>st.
       Inr (\<lparr>size = n, state = st\<rparr>, g'))))"

subsection \<open>FindNeighborRand\<close>

text \<open>The result is \<open>None\<close> for Go's nil pointer.\<close>

definition FindNeighborRand :: "Rand \<Rightarrow> Board \<Rightarrow> int \<Rightarrow> error + (Board option \<times> Rand)" where
  "FindNeighborRand g b x =
     bindE (FindNeighbors b x) (\<lambda>ns.
       if ns = [] then Inr (None, g)
       else bindE (Intn g (int (length ns))) (\<lambda>(i, g').
            bindE (idx ns i) (\<lambda>c. Inr (Some c, g'))))"

subsection \<open>MinDiffHC\<close>

definition MaxInt32 :: int where
  "MaxInt32 = 2147483647"

text \<open>The loop \<open>for _, c := range candidates\<close>, on the variables \<open>nextBoard\<close> and \<open>h\<close>.\<close>

fun HC_pick :: "Board list \<Rightarrow> Board \<Rightarrow> Board option \<Rightarrow> int \<Rightarrow> error + (Board option \<times> int)" where
  "HC_pick [] target nextBoard h = Inr (nextBoard, h)"
| "HC_pick (c # cs) target nextBoard h =
     bindE (DiffN c target) (\<lambda>diff.
       if diff < h then HC_pick cs target (Some c) diff
       else HC_pick cs target nextBoard h)"

text \<open>
  One turn of the outer loop: it either sends \<open>currentH\<close> on the channel and returns, or
  goes on with \<open>currentBoard = nextBoard\<close>, which is nil when no candidate was picked.
\<close>

datatype HC_turn = Emit int | Move "Board option"

definition MinDiffHC_turn :: "Board \<Rightarrow> Board \<Rightarrow> error + HC_turn" where
  "MinDiffHC_turn currentBoard target =
     bindE (FindNeighbors currentBoard 0) (\<lambda>candidates.
     bindE (HC_pick candidates target None MaxInt32) (\<lambda>(nextBoard, h).
     bindE (DiffN currentBoard target) (\<lambda>currentH.
       if h \<ge> currentH then Inr (Emit currentH) else Inr (Move nextBoard))))"

text \<open>
  The outer loop \<open>for { ... }\<close> has no bound of its own. It is a total function all the
  same: a move is made only to a board whose diff is smaller, and a diff is never negative.
\<close>

declare DiffN_cols.simps [simp del] DiffN_rows.simps [simp del]

lemma bindE_Inr [simp]: "bindE (Inr x) f = f x"
  by (simp add: bindE_def)

lemma bindE_Inl [simp]: "bindE (Inl e) f = Inl e"
  by (simp add: bindE_def)

lemma bindE_eq_Inr: "bindE m f = Inr y \<longleftrightarrow> (\<exists>x. m = Inr x \<and> f x = Inr y)"
  by (cases m) auto

lemma DiffN_cols_mono: "DiffN_cols b target i j c = Inr d \<Longrightarrow> c \<le> d"
proof (induction b target i j c arbitrary: d rule: DiffN_cols.induct)
  case (1 b target i j c)
  show ?case
  proof (cases "j < size b")
    case False
    with "1.prems" show ?thesis by (subst (asm) DiffN_cols.simps) simp
  next
    case True
    from "1.prems" True obtain x where x: "cell b i j = Inr x"
      and r: "(if x = 0 then DiffN_cols b target i (j + 1) c
               else bindE (cell target i j) (\<lambda>y.
                 DiffN_cols b target i (j + 1) (if x \<noteq> y then c + 1 else c))) = Inr d"
      by (subst (asm) DiffN_cols.simps) (auto simp: bindE_eq_Inr)
    show ?thesis
    proof (cases "x = 0")
      case z: True
      with r have "DiffN_cols b target i (j + 1) c = Inr d" by simp
      from "1.IH"(1)[OF True z this] show ?thesis .
    next
      case nz: False
      with r obtain y where
        "DiffN_cols b target i (j + 1) (if x \<noteq> y then c + 1 else c) = Inr d"
        by (auto simp: bindE_eq_Inr)
      from "1.IH"(2)[OF True nz this] show ?thesis by (simp split: if_splits)
    qed
  qed
qed

lemma DiffN_rows_mono: "DiffN_rows b target i c = Inr d \<Longrightarrow> c \<le> d"
proof (induction b target i c arbitrary: d rule: DiffN_rows.induct)
  case (1 b target i c)
  show ?case
  proof (cases "i < size b")
    case False
    with "1.prems" show ?thesis by (subst (asm) DiffN_rows.simps) simp
  next
    case True
    from "1.prems" True obtain c' where c': "DiffN_cols b target i 0 c = Inr c'"
      and r: "DiffN_rows b target (i + 1) c' = Inr d"
      by (subst (asm) DiffN_rows.simps) (auto simp: bindE_eq_Inr)
    from DiffN_cols_mono[OF c'] "1.IH"[OF True r] show ?thesis by simp
  qed
qed

lemma DiffN_nonneg: "DiffN b target = Inr d \<Longrightarrow> 0 \<le> d"
  using DiffN_rows_mono[of b target 0 0 d] by (simp add: DiffN_def split: if_splits)

lemma HC_pick_result:
  "HC_pick cs target nb h = Inr (nb', h') \<Longrightarrow>
     (nb' = nb \<and> h' = h) \<or> (\<exists>c. nb' = Some c \<and> c \<in> set cs \<and> DiffN c target = Inr h' \<and> h' < h)"
proof (induction cs arbitrary: nb h)
  case Nil
  then show ?case by simp
next
  case (Cons c cs)
  from Cons.prems obtain diff where d: "DiffN c target = Inr diff"
    and r: "(if diff < h then HC_pick cs target (Some c) diff
             else HC_pick cs target nb h) = Inr (nb', h')"
    by (auto simp: bindE_eq_Inr)
  show ?case
  proof (cases "diff < h")
    case True
    with r have "HC_pick cs target (Some c) diff = Inr (nb', h')" by simp
    from Cons.IH[OF this] d True show ?thesis by auto
  next
    case False
    with r have "HC_pick cs target nb h = Inr (nb', h')" by simp
    from Cons.IH[OF this] show ?thesis by auto
  qed
qed

lemma MinDiffHC_turn_Move:
  assumes "MinDiffHC_turn cur target = Inr (Move (Some nb))"
  shows "\<exists>h currentH. DiffN nb target = Inr h \<and> DiffN cur target = Inr currentH \<and>
           0 \<le> h \<and> h < currentH"
proof -
  let ?res = "Inr (Move (Some nb)) :: error + HC_turn"
  from assms obtain candidates where
    "bindE (HC_pick candidates target None MaxInt32) (\<lambda>(nextBoard, h).
       bindE (DiffN cur target) (\<lambda>currentH.
         if h \<ge> currentH then Inr (Emit currentH) else Inr (Move nextBoard))) = ?res"
    unfolding MinDiffHC_turn_def bindE_eq_Inr by blast
  then obtain ph where ph: "HC_pick candidates target None MaxInt32 = Inr ph"
    and b: "(case ph of (nextBoard, h) \<Rightarrow>
       bindE (DiffN cur target) (\<lambda>currentH.
         if h \<ge> currentH then Inr (Emit currentH) else Inr (Move nextBoard))) = ?res"
    unfolding bindE_eq_Inr by blast
  obtain nextBoard h where eq: "ph = (nextBoard, h)" by (cases ph)
  from ph eq have p: "HC_pick candidates target None MaxInt32 = Inr (nextBoard, h)" by simp
  from b eq have "bindE (DiffN cur target) (\<lambda>currentH.
         if h \<ge> currentH then Inr (Emit currentH) else Inr (Move nextBoard)) = ?res" by simp
  then obtain currentH where c: "DiffN cur target = Inr currentH"
    and r: "(if h \<ge> currentH then Inr (Emit currentH) else Inr (Move nextBoard)) = ?res"
    unfolding bindE_eq_Inr by blast
  from r have lt: "h < currentH" and nb: "nextBoard = Some nb" by (auto split: if_splits)
  from HC_pick_result[OF p] nb have "DiffN nb target = Inr h" by auto
  with c lt DiffN_nonneg[OF this] show ?thesis by auto
qed

definition HC_measure :: "Board option \<Rightarrow> Board \<Rightarrow> nat" where
  "HC_measure currentBoard target =
     (case currentBoard of None \<Rightarrow> 0
      | Some b \<Rightarrow> (case DiffN b target of Inl e \<Rightarrow> 1 | Inr d \<Rightarrow> nat d + 2))"

lemma HC_measure_decreases:
  assumes "MinDiffHC_turn cur target = Inr (Move nextBoard)"
  shows "HC_measure nextBoard target < HC_measure (Some cur) target"
proof (cases nextBoard)
  case None
  then show ?thesis by (simp add: HC_measure_def split: sum.splits)
next
  case (Some nb)
  with MinDiffHC_turn_Move[of cur target nb] assms show ?thesis
    by (auto simp: HC_measure_def)
qed

function MinDiffHC_loop :: "Board option \<Rightarrow> Board \<Rightarrow> int list \<Rightarrow> error + int list" where
  "MinDiffHC_loop currentBoard target ch =
     (case currentBoard of
        None \<Rightarrow> Inl NilDereference
      | Some cur \<Rightarrow>
          (case MinDiffHC_turn cur target of
             Inl e \<Rightarrow> Inl e
           | Inr (Emit currentH) \<Rightarrow> Inr (ch @ [currentH])
           | Inr (Move nextBoard) \<Rightarrow> MinDiffHC_loop nextBoard target ch))"
  by pat_completeness auto
termination
  by (relation "measure (\<lambda>(currentBoard, target, ch). HC_measure currentBoard target)")
     (auto simp: HC_measure_decreases)

text \<open>The channel \<open>ch\<close> is the list of the values sent on it so far.\<close>

definition MinDiffHC :: "Board \<Rightarrow> Board \<Rightarrow> int list \<Rightarrow> error + int list" where
  "MinDiffHC b target ch = MinDiffHC_loop (Some b) target ch"

text \<open>The boards the loop visits, the start board first.\<close>

function HC_trace :: "Board \<Rightarrow> Board \<Rightarrow> Board list" where
  "HC_trace cur target =
     (case MinDiffHC_turn cur target of
        Inr (Move (Some nb)) \<Rightarrow> cur # HC_trace nb target
      | _ \<Rightarrow> [cur])"
  by pat_completeness auto
termination
proof (relation "measure (\<lambda>(cur, target). HC_measure (Some cur) target)")
  show "wf (measure (\<lambda>(cur, target). HC_measure (Some cur) target))" by simp
next
  fix cur target :: Board and x2 x2a x2b
  assume "MinDiffHC_turn cur target = Inr x2" "x2 = Move x2a" "x2a = Some x2b"
  then show "((x2b, target), (cur, target)) \<in> measure (\<lambda>(cur, target). HC_measure (Some cur) target)"
    using HC_measure_decreases[of cur target "Some x2b"] by simp
qed

subsection \<open>AcceptCandidate\<close>

text \<open>The sample is drawn from the generator only when the third branch is reached.\<close>

definition AcceptCandidate :: "Arith \<Rightarrow> Rand \<Rightarrow> int \<Rightarrow> int \<Rightarrow> float64 \<Rightarrow> bool \<times> Rand" where
  "AcceptCandidate fa g current candidate temp =
     (if candidate < current then (True, g)
      else if temp = Finite 0 then (False, g)
      else
        (let d = f64_of_int fa (wrap64 (candidate - current));
             p = math_Exp fa (f64_div fa (f64_neg d) temp);
             (u, g') = Float64 g
         in (f64_less u p, g')))"

subsection \<open>MinDiffSA\<close>

record SimulatedAnnealParams =
  Objective :: Board
  TemperatureMin :: float64
  Alpha :: float64
  Iterations :: int
  MaxTime :: int

text \<open>The local variables of \<open>MinDiffSA\<close>, and the generator.\<close>

record SA_vars =
  currentBoard :: Board
  currentDiff :: int
  minDiff :: int
  temperature :: float64
  generator :: Rand

text \<open>
  The body of the inner loop. A nil candidate faults at \<open>candidateBoard.DiffN\<close>, which
  reads \<open>b.size\<close>.
\<close>

definition SA_iteration :: "Arith \<Rightarrow> SimulatedAnnealParams \<Rightarrow> SA_vars \<Rightarrow> error + SA_vars" where
  "SA_iteration fa p s =
     bindE (FindNeighborRand (generator s) (currentBoard s) 0) (\<lambda>(candidate, g1).
       case candidate of
         None \<Rightarrow> Inl NilDereference
       | Some candidateBoard \<Rightarrow>
           bindE (DiffN candidateBoard (Objective p)) (\<lambda>candidateDiff.
             let m = (if candidateDiff < minDiff s then candidateDiff else minDiff s);
                 (accept, g2) = AcceptCandidate fa g1 (currentDiff s) candidateDiff (temperature s)
             in Inr (if accept
                     then s\<lparr>currentBoard := candidateBoard, currentDiff := candidateDiff,
                            minDiff := m, generator := g2\<rparr>
                     else s\<lparr>minDiff := m, generator := g2\<rparr>)))"

text \<open>The inner loop \<open>for i := 0; i < p.Iterations; i++\<close>.\<close>

function SA_inner :: "Arith \<Rightarrow> SimulatedAnnealParams \<Rightarrow> int \<Rightarrow> SA_vars \<Rightarrow> error + SA_vars" where
  "SA_inner fa p i s =
     (if i < Iterations p then bindE (SA_iteration fa p s) (\<lambda>s'. SA_inner fa p (i + 1) s')
      else Inr s)"
  by pat_completeness auto
termination
  by (relation "measure (\<lambda>(fa, p, i, s). nat (Iterations p - i))") auto

text \<open>The sends at either exit: \<open>minDiff\<close> when it is below \<open>currentDiff\<close>, then \<open>currentDiff\<close>.\<close>

definition SA_report :: "SA_vars \<Rightarrow> int list \<Rightarrow> int list" where
  "SA_report s ch =
     (let ch1 = (if minDiff s < currentDiff s then ch @ [minDiff s] else ch)
      in ch1 @ [currentDiff s])"

text \<open>
  The outer loop \<open>for t > tMin\<close> need not end (\<open>alpha \<ge> 1\<close> with an unbounded time budget),
  so it takes fuel and returns \<open>None\<close> when the fuel runs out. \<open>since k\<close> is what the
  \<open>k\<close>-th call of \<open>time.Since(start)\<close> returns. The result carries the final variables
  next to the channel.
\<close>

fun SA_outer ::
  "Arith \<Rightarrow> nat \<Rightarrow> (nat \<Rightarrow> int) \<Rightarrow> SimulatedAnnealParams \<Rightarrow> nat \<Rightarrow> SA_vars \<Rightarrow> int list
     \<Rightarrow> (error + int list \<times> SA_vars) option" where
  "SA_outer fa 0 since p k s ch = None"
| "SA_outer fa (Suc fuel) since p k s ch =
     (if f64_less (TemperatureMin p) (temperature s) then
        (case SA_inner fa p 0 s of
           Inl e \<Rightarrow> Some (Inl e)
         | Inr s1 \<Rightarrow>
             (let s2 = s1\<lparr>temperature := f64_mul fa (temperature s1) (Alpha p)\<rparr> in
              if since k > MaxTime p then Some (Inr (SA_report s2 ch, s2))
              else SA_outer fa fuel since p (k + 1) s2 ch))
      else Some (Inr (SA_report s ch, s)))"

definition MinDiffSA ::
  "Arith \<Rightarrow> nat \<Rightarrow> (nat \<Rightarrow> int) \<Rightarrow> Rand \<Rightarrow> Board \<Rightarrow> SimulatedAnnealParams \<Rightarrow> int list
     \<Rightarrow> (error + int list \<times> SA_vars) option" where
  "MinDiffSA fa fuel since g b p ch =
     (case DiffN b (Objective p) of
        Inl e \<Rightarrow> Some (Inl e)
      | Inr d \<Rightarrow>
          SA_outer fa fuel since p 0
            \<lparr>currentBoard = b, currentDiff = d, minDiff = d, temperature = Finite 1,
             generator = g\<rparr> ch)"

section \<open>Well-formed and valid boards\<close>

text \<open>
  A board is well formed when its grid is \<open>size \<times> size\<close>; it is valid when, moreover,
  its tiles are the numbers \<open>0 .. size\<^sup>2 - 1\<close>, each once.
\<close>

definition wf_board :: "Board \<Rightarrow> bool" where
  "wf_board b \<longleftrightarrow> 0 \<le> size b \<and> int (length (state b)) = size b \<and>
     list_all (\<lambda>row. int (length row) = size b) (state b)"

definition valid_board :: "Board \<Rightarrow> bool" where
  "valid_board b \<longleftrightarrow> 0 < size b \<and> wf_board b \<and>
     sort (concat (state b)) = [0..size b * size b - 1]"

text \<open>The cell \<open>(i, j)\<close> counts for \<open>DiffN\<close>: it is not the blank of \<open>b\<close> and differs from the target.\<close>

definition mismatch :: "Board \<Rightarrow> Board \<Rightarrow> nat \<Rightarrow> nat \<Rightarrow> bool" where
  "mismatch b target i j \<longleftrightarrow>
     state b ! i ! j \<noteq> 0 \<and> state b ! i ! j \<noteq> state target ! i ! j"

definition mismatches :: "Board \<Rightarrow> Board \<Rightarrow> (nat \<times> nat) set" where
  "mismatches b target =
     {(i, j). i < nat (size b) \<and> j < nat (size b) \<and> mismatch b target i j}"

definition board_a :: Board where
  "board_a = \<lparr>size = 2, state = [[1, 0], [2, 3]]\<rparr>"

definition board_goal2 :: Board where
  "board_goal2 = \<lparr>size = 2, state = [[0, 1], [2, 3]]\<rparr>"

text \<open>
  The board \<open>b\<close> with the contents of the cells \<open>p\<close> and \<open>q\<close> exchanged, and the cells
  next to \<open>(i, j)\<close> on an \<open>n \<times> n\<close> grid, in the order up, down, left, right.
\<close>

definition put :: "Board \<Rightarrow> nat \<Rightarrow> nat \<Rightarrow> int \<Rightarrow> Board" where
  "put c i j v = c\<lparr>state := (state c)[i := (state c ! i)[j := v]]\<rparr>"

definition swap_cells :: "Board \<Rightarrow> nat \<times> nat \<Rightarrow> nat \<times> nat \<Rightarrow> Board" where
  "swap_cells b p q =
     (case (p, q) of ((i, j), (i', j')) \<Rightarrow>
        put (put b i j (state b ! i' ! j')) i' j' (state b ! i ! j))"

definition directions :: "nat \<Rightarrow> nat \<Rightarrow> nat \<Rightarrow> (nat \<times> nat) list" where
  "directions n i j =
     (if 0 < i then [(i - 1, j)] else []) @
     (if i + 1 < n then [(i + 1, j)] else []) @
     (if 0 < j then [(i, j - 1)] else []) @
     (if j + 1 < n then [(i, j + 1)] else [])"

definition board_one :: Board where
  "board_one = \<lparr>size = 1, state = [[0]]\<rparr>"

text \<open>A generator, and parameters of simulated annealing, for the examples.\<close>

definition rand_zero :: Rand where
  "rand_zero = \<lparr>ints = (\<lambda>k. 1), floats = (\<lambda>k. 0), perms = (\<lambda>k. []), calls = 0\<rparr>"

definition sa_params_ex :: SimulatedAnnealParams where
  "sa_params_ex =
     \<lparr>Objective = board_goal2, TemperatureMin = Finite (1 / 2), Alpha = Finite (1 / 4),
      Iterations = 2, MaxTime = 10\<rparr>"

definition sa_params_one :: SimulatedAnnealParams where
  "sa_params_one =
     \<lparr>Objective = board_one, TemperatureMin = Finite (1 / 2), Alpha = Finite (1 / 4),
      Iterations = 2, MaxTime = 10\<rparr>"

text \<open>
  An arithmetic for the examples. On finite operands its product and quotient are the
  exact ones, which is what \<open>float64\<close> computes on the numbers of the examples (small
  integers and powers of two). Its exponential is 0 below \<open>-746\<close>, where \<open>math.Exp\<close>
  underflows to 0, and the real exponential elsewhere, of which the examples use only
  that it is positive.
\<close>

definition arith_ex :: Arith where
  "arith_ex =
     \<lparr>f64_of_int = (\<lambda>i. Finite (real_of_int i)),
      f64_mul = (\<lambda>x y. case (x, y) of (Finite a, Finite b) \<Rightarrow> Finite (a * b) | _ \<Rightarrow> NaN),
      f64_div = (\<lambda>x y. case (x, y) of
                   (Finite a, Finite b) \<Rightarrow> if b = 0 then NaN else Finite (a / b)
                 | _ \<Rightarrow> NaN),
      math_Exp = (\<lambda>x. case x of
                    Finite a \<Rightarrow> if a < - 746 then Finite 0 else Finite (exp a)
                  | PosInf \<Rightarrow> PosInf
                  | NegInf \<Rightarrow> Finite 0
                  | NaN \<Rightarrow> NaN)\<rparr>"

text \<open>
  A run-time system for the examples: it serves every length whose slice stays within
  \<open>2\<^sup>4\<^sup>8\<close> bytes (24 bytes for a row header, 8 for an \<open>int\<close>).
\<close>

definition runtime_ex :: Runtime where
  "runtime_ex =
     \<lparr>serves_rows = (\<lambda>n. n * 24 \<le> 2 ^ 48), serves_ints = (\<lambda>n. n * 8 \<le> 2 ^ 48)\<rparr>"

definition rand_perm_ex :: Rand where
  "rand_perm_ex = \<lparr>ints = (\<lambda>k. 1), floats = (\<lambda>k. 0), perms = (\<lambda>k. [1, 0, 2, 3]), calls = 0\<rparr>"

definition board_tile1 :: Board where
  "board_tile1 = \<lparr>size = 1, state = [[1]]\<rparr>"

text \<open>
  The boards that a run of \<open>MinDiffSA\<close> scores with \<open>DiffN\<close>: the start board, then the
  candidate of every iteration, in the order of the run.
\<close>

definition SA_candidate :: "SA_vars \<Rightarrow> Board" where
  "SA_candidate s =
     (case FindNeighborRand (generator s) (currentBoard s) 0 of
        Inr (Some c, g1) \<Rightarrow> c
      | _ \<Rightarrow> currentBoard s)"

function SA_inner_candidates ::
  "Arith \<Rightarrow> SimulatedAnnealParams \<Rightarrow> int \<Rightarrow> SA_vars \<Rightarrow> Board list" where
  "SA_inner_candidates fa p i s =
     (if i < Iterations p then
        (case SA_iteration fa p s of
           Inl e \<Rightarrow> []
         | Inr s' \<Rightarrow> SA_candidate s # SA_inner_candidates fa p (i + 1) s')
      else [])"
  by pat_completeness auto
termination
  by (relation "measure (\<lambda>(fa, p, i, s). nat (Iterations p - i))") auto

fun SA_outer_candidates ::
  "Arith \<Rightarrow> nat \<Rightarrow> (nat \<Rightarrow> int) \<Rightarrow> SimulatedAnnealParams \<Rightarrow> nat \<Rightarrow> SA_vars \<Rightarrow> Board list" where
  "SA_outer_candidates fa 0 since p k s = []"
| "SA_outer_candidates fa (Suc fuel) since p k s =
     (if f64_less (TemperatureMin p) (temperature s) then
        SA_inner_candidates fa p 0 s @
        (case SA_inner fa p 0 s of
           Inl e \<Rightarrow> []
         | Inr s1 \<Rightarrow>
             if since k > MaxTime p then []
             else SA_outer_candidates fa fuel since p (k + 1)
                    (s1\<lparr>temperature := f64_mul fa (temperature s1) (Alpha p)\<rparr>))
      else [])"

definition SA_scored ::
  "Arith \<Rightarrow> nat \<Rightarrow> (nat \<Rightarrow> int) \<Rightarrow> Rand \<Rightarrow> Board \<Rightarrow> SimulatedAnnealParams \<Rightarrow> Board list" where
  "SA_scored fa fuel since g b p =
     (case DiffN b (Objective p) of
        Inl e \<Rightarrow> [b]
      | Inr d \<Rightarrow>
          b # SA_outer_candidates fa fuel since p 0
                \<lparr>currentBoard = b, currentDiff = d, minDiff = d, temperature = Finite 1,
                 generator = g\<rparr>)"

text \<open>
  What the variables are to the boards scored so far: \<open>currentBoard\<close> is one of them and
  \<open>currentDiff\<close> is its diff, and \<open>minDiff\<close> is the least of their diffs.
\<close>

definition SA_tracks :: "Board \<Rightarrow> Board list \<Rightarrow> SA_vars \<Rightarrow> bool" where
  "SA_tracks target seen s \<longleftrightarrow>
     currentBoard s \<in> set seen \<and>
     DiffN (currentBoard s) target = Inr (currentDiff s) \<and>
     (\<exists>c \<in> set seen. DiffN c target = Inr (minDiff s)) \<and>
     (\<forall>c \<in> set seen. \<exists>d. DiffN c target = Inr d \<and> minDiff s \<le> d)"

section \<open>The diff scorer counts the tiles out of place\<close>

lemma wf_board_row:
  assumes "wf_board b" "i < nat (size b)"
  shows "length (state b ! i) = nat (size b)"
proof -
  from assms have "i < length (state b)" unfolding wf_board_def by linarith
  then have "state b ! i \<in> set (state b)" by simp
  with assms(1) have "int (length (state b ! i)) = size b"
    by (simp add: wf_board_def list_all_iff)
  then show ?thesis by simp
qed

lemma cell_wf:
  assumes "wf_board b" "0 \<le> i" "i < size b" "0 \<le> j" "j < size b"
  shows "cell b i j = Inr (state b ! nat i ! nat j)"
proof -
  have r: "length (state b ! nat i) = nat (size b)"
    using assms by (intro wf_board_row) auto
  have l: "int (length (state b)) = size b" using assms(1) by (simp add: wf_board_def)
  show ?thesis using assms r l by (simp add: cell_def idx_def)
qed

lemma DiffN_cols_count:
  "wf_board b \<Longrightarrow> wf_board target \<Longrightarrow> size b = size target \<Longrightarrow> 0 \<le> i \<Longrightarrow> i < size b \<Longrightarrow>
   0 \<le> j \<Longrightarrow> j \<le> size b \<Longrightarrow>
    DiffN_cols b target i j c =
      Inr (c + int (length (filter (mismatch b target (nat i)) [nat j..<nat (size b)])))"
proof (induction b target i j c rule: DiffN_cols.induct)
  case (1 b target i j c)
  show ?case
  proof (cases "j < size b")
    case False
    with 1 show ?thesis by (subst DiffN_cols.simps) simp
  next
    case True
    have cb: "cell b i j = Inr (state b ! nat i ! nat j)"
      using True 1 by (intro cell_wf) auto
    have ct: "cell target i j = Inr (state target ! nat i ! nat j)"
      using True 1 by (intro cell_wf) auto
    have upt: "[nat j..<nat (size b)] = nat j # [nat (j + 1)..<nat (size b)]"
      using True 1 by (simp add: upt_conv_Cons nat_add_distrib)
    have mm: "mismatch b target (nat i) (nat j) \<longleftrightarrow>
        state b ! nat i ! nat j \<noteq> 0 \<and> state b ! nat i ! nat j \<noteq> state target ! nat i ! nat j"
      by (simp add: mismatch_def)
    show ?thesis
    proof (cases "state b ! nat i ! nat j = 0")
      case z: True
      have "DiffN_cols b target i j c = DiffN_cols b target i (j + 1) c"
        using True cb z by (subst DiffN_cols.simps) simp
      also have "\<dots> = Inr (c + int (length (filter (mismatch b target (nat i)) [nat (j + 1)..<nat (size b)])))"
        using "1.IH"(1)[OF True z] "1.prems" True by simp
      finally show ?thesis using z mm by (simp add: upt)
    next
      case nz: False
      let ?c' = "if state b ! nat i ! nat j \<noteq> state target ! nat i ! nat j then c + 1 else c"
      have "DiffN_cols b target i j c = DiffN_cols b target i (j + 1) ?c'"
        using True cb ct nz by (subst DiffN_cols.simps) simp
      also have "\<dots> = Inr (?c' + int (length (filter (mismatch b target (nat i)) [nat (j + 1)..<nat (size b)])))"
        using "1.IH"(2)[OF True nz] "1.prems" True by simp
      finally show ?thesis using nz mm by (simp add: upt)
    qed
  qed
qed

lemma DiffN_rows_count:
  "wf_board b \<Longrightarrow> wf_board target \<Longrightarrow> size b = size target \<Longrightarrow> 0 \<le> i \<Longrightarrow> i \<le> size b \<Longrightarrow>
    DiffN_rows b target i c =
      Inr (c + (\<Sum>r\<leftarrow>[nat i..<nat (size b)].
                 int (length (filter (mismatch b target r) [0..<nat (size b)]))))"
proof (induction b target i c rule: DiffN_rows.induct)
  case (1 b target i c)
  show ?case
  proof (cases "i < size b")
    case False
    with 1 show ?thesis by (subst DiffN_rows.simps) simp
  next
    case True
    have upt: "[nat i..<nat (size b)] = nat i # [nat (i + 1)..<nat (size b)]"
      using True 1 by (simp add: upt_conv_Cons nat_add_distrib)
    let ?c' = "c + int (length (filter (mismatch b target (nat i)) [0..<nat (size b)]))"
    have cols: "DiffN_cols b target i 0 c = Inr ?c'"
      using DiffN_cols_count[of b target i 0 c] True "1.prems" by simp
    have "DiffN_rows b target i c = DiffN_rows b target (i + 1) ?c'"
      using True cols by (subst DiffN_rows.simps) simp
    also have "\<dots> = Inr (?c' + (\<Sum>r\<leftarrow>[nat (i + 1)..<nat (size b)].
                 int (length (filter (mismatch b target r) [0..<nat (size b)]))))"
      using "1.IH"[OF True, of ?c'] "1.prems" True by simp
    finally show ?thesis by (simp add: upt)
  qed
qed

lemma sum_rows_card:
  "(\<Sum>r\<leftarrow>[0..<n]. int (length (filter (P r) [0..<n]))) =
     int (card {(i, j). i < n \<and> j < n \<and> P i j})"
proof -
  have "{(i, j). i < n \<and> j < n \<and> P i j} = (SIGMA i:{..<n}. {j. j < n \<and> P i j})"
    by auto
  moreover have "\<And>r. length (filter (P r) [0..<n]) = card {j. j < n \<and> P r j}"
    by (simp add: length_filter_conv_card cong: conj_cong)
  ultimately show ?thesis
    by (simp add: sum_list_distinct_conv_sum_set atLeast0LessThan)
qed

lemma DiffN_count:
  assumes "wf_board b" "wf_board target" "size b = size target"
  shows "DiffN b target = Inr (int (card (mismatches b target)))"
proof -
  have "0 \<le> size b" using assms(1) by (simp add: wf_board_def)
  then show ?thesis
    using DiffN_rows_count[OF assms, of 0 0] assms(3)
    by (simp add: DiffN_def mismatches_def sum_rows_card)
qed

lemma in_concat_nth:
  assumes "x \<in> set (concat xss)"
  shows "\<exists>i j. i < length xss \<and> j < length (xss ! i) \<and> xss ! i ! j = x"
proof -
  from assms obtain xs where xs: "xs \<in> set xss" "x \<in> set xs" by auto
  from xs(1) obtain i where i: "i < length xss" "xss ! i = xs" by (auto simp: in_set_conv_nth)
  from xs(2) obtain j where j: "j < length xs" "xs ! j = x" by (auto simp: in_set_conv_nth)
  from i j show ?thesis by auto
qed

lemma valid_board_mset:
  assumes "valid_board b"
  shows "mset (concat (state b)) = mset [0..size b * size b - 1]"
proof -
  have "mset (sort (concat (state b))) = mset [0..size b * size b - 1]"
    using assms by (simp add: valid_board_def)
  then show ?thesis by simp
qed

lemma valid_board_set:
  assumes "valid_board b"
  shows "set (concat (state b)) = {0..size b * size b - 1}"
proof -
  have "set_mset (mset (concat (state b))) = set_mset (mset [0..size b * size b - 1])"
    using valid_board_mset[OF assms] by (rule arg_cong)
  then show ?thesis by (simp only: set_mset_mset set_upto)
qed

lemma valid_board_has:
  assumes "valid_board b" "0 \<le> v" "v < size b * size b"
  shows "\<exists>i j. i < nat (size b) \<and> j < nat (size b) \<and> state b ! i ! j = v"
proof -
  have wf: "wf_board b" using assms(1) unfolding valid_board_def by blast
  have "v \<in> {0..size b * size b - 1}" using assms(2,3) by simp
  then have "v \<in> set (concat (state b))" by (simp only: valid_board_set[OF assms(1)])
  from in_concat_nth[OF this]
  obtain i j where ij: "i < length (state b)" "j < length (state b ! i)" "state b ! i ! j = v"
    by blast
  have "int (length (state b)) = size b" using wf unfolding wf_board_def by blast
  with ij(1) have i: "i < nat (size b)" by linarith
  have "length (state b ! i) = nat (size b)" by (rule wf_board_row[OF wf i])
  with ij(2) have "j < nat (size b)" by simp
  with i ij(3) show ?thesis by blast
qed

lemma card_cells: "card {(i, j). i < n \<and> j < (n::nat)} = n * n"
proof -
  have "{(i, j). i < n \<and> j < n} = {..<n} \<times> {..<n}" by auto
  then show ?thesis by simp
qed

lemma mismatches_bound:
  assumes "valid_board b"
  shows "int (card (mismatches b target)) \<le> size b * size b - 1"
proof -
  let ?n = "nat (size b)"
  have pos: "0 < size b" using assms by (simp add: valid_board_def)
  then obtain i j where ij: "i < ?n" "j < ?n" "state b ! i ! j = 0"
    using valid_board_has[OF assms, of 0] by auto
  let ?all = "{(i, j). i < ?n \<and> j < ?n}"
  have "?all = {..<?n} \<times> {..<?n}" by auto
  then have fin: "finite ?all" by simp
  have sub: "mismatches b target \<subseteq> ?all - {(i, j)}"
    using ij(3) by (auto simp: mismatches_def mismatch_def)
  have "card (mismatches b target) \<le> card (?all - {(i, j)})"
    using sub fin by (intro card_mono) auto
  also have "\<dots> = ?n * ?n - 1" using ij fin by (simp add: card_cells)
  finally have "int (card (mismatches b target)) \<le> int (?n * ?n - 1)" by simp
  also have "\<dots> = int (?n * ?n) - 1"
    using ij(1) by (cases "?n") auto
  also have "\<dots> = size b * size b - 1"
    using pos by simp
  finally show ?thesis .
qed

text \<open>
  C1. For boards of the same size, \<open>DiffN b target\<close> is the number of cells where \<open>b\<close>
  differs from the target, the cells where \<open>b\<close> holds the blank \<open>0\<close> left out. So
  \<open>DiffN b b = 0\<close>, and on a valid board of size \<open>n\<close> the result lies in \<open>0 .. n\<^sup>2 - 1\<close>.
\<close>

theorem DiffN_counts_out_of_place:
  assumes "wf_board b" and "wf_board target" and "size b = size target"
  shows "DiffN b target =
           Inr (int (card {(i, j). i < nat (size b) \<and> j < nat (size b) \<and>
                        state b ! i ! j \<noteq> 0 \<and> state b ! i ! j \<noteq> state target ! i ! j}))
         \<and> DiffN b b = Inr 0
         \<and> (valid_board b \<longrightarrow>
              (\<exists>d. DiffN b target = Inr d \<and> 0 \<le> d \<and> d \<le> size b * size b - 1))"
proof (intro conjI impI)
  show "DiffN b target =
           Inr (int (card {(i, j). i < nat (size b) \<and> j < nat (size b) \<and>
                        state b ! i ! j \<noteq> 0 \<and> state b ! i ! j \<noteq> state target ! i ! j}))"
    using DiffN_count[OF assms] by (simp add: mismatches_def mismatch_def)
  have "mismatches b b = {}" by (auto simp: mismatches_def mismatch_def)
  then show "DiffN b b = Inr 0" using DiffN_count[OF assms(1) assms(1)] by simp
  assume "valid_board b"
  then show "\<exists>d. DiffN b target = Inr d \<and> 0 \<le> d \<and> d \<le> size b * size b - 1"
    using DiffN_count[OF assms] mismatches_bound[of b target] by simp
qed


theorem DiffN_counts_out_of_place_witness:
  "wf_board board_a \<and> wf_board board_goal2 \<and> size board_a = size board_goal2 \<and>
   valid_board board_a \<and> DiffN board_a board_goal2 = Inr 1 \<and> DiffN board_a board_a = Inr 0"
proof -
  have wa: "wf_board board_a" by (simp add: wf_board_def board_a_def)
  have wg: "wf_board board_goal2" by (simp add: wf_board_def board_goal2_def)
  have sz: "size board_a = size board_goal2" by (simp add: board_a_def board_goal2_def)
  have va: "valid_board board_a" using wa by (simp add: valid_board_def board_a_def upto_rec1)
  have d: "DiffN board_a board_goal2 = Inr 1"
    by (simp add: DiffN_def DiffN_rows.simps DiffN_cols.simps cell_def idx_def
        board_a_def board_goal2_def)
  from DiffN_counts_out_of_place[OF wa wg sz] va wa wg sz d show ?thesis by simp
qed

section \<open>Neighbours of a tile\<close>

declare tileIndx_cols.simps [simp del] tileIndx_rows.simps [simp del] Copy_rows.simps [simp del]

lemma wf_board_length:
  assumes "wf_board b"
  shows "length (state b) = nat (size b)" and "0 \<le> size b"
  using assms unfolding wf_board_def by auto

lemma tileIndx_cols_wf:
  "wf_board b \<Longrightarrow> 0 \<le> i \<Longrightarrow> i < size b \<Longrightarrow> 0 \<le> j \<Longrightarrow> j \<le> size b \<Longrightarrow>
    (\<exists>k. tileIndx_cols b n i j = Inr (Some (i, k, True)) \<and> j \<le> k \<and> k < size b \<and>
          state b ! nat i ! nat k = n) \<or>
    (tileIndx_cols b n i j = Inr None \<and>
       (\<forall>k. nat j \<le> k \<and> k < nat (size b) \<longrightarrow> state b ! nat i ! k \<noteq> n))"
proof (induction b n i j rule: tileIndx_cols.induct)
  case (1 b n i j)
  show ?case
  proof (cases "j < size b")
    case False
    with "1.prems" show ?thesis by (subst tileIndx_cols.simps) simp
  next
    case True
    have cb: "cell b i j = Inr (state b ! nat i ! nat j)"
      using True 1 by (intro cell_wf) auto
    show ?thesis
    proof (cases "state b ! nat i ! nat j = n")
      case hit: True
      have "tileIndx_cols b n i j = Inr (Some (i, j, True))"
        using True cb hit by (subst tileIndx_cols.simps) simp
      with True hit show ?thesis by auto
    next
      case miss: False
      have step: "tileIndx_cols b n i j = tileIndx_cols b n i (j + 1)"
        using True cb miss by (subst tileIndx_cols.simps) simp
      from "1.IH"[OF True miss] "1.prems" True
      consider k where "tileIndx_cols b n i (j + 1) = Inr (Some (i, k, True))"
          "j + 1 \<le> k" "k < size b" "state b ! nat i ! nat k = n"
        | "tileIndx_cols b n i (j + 1) = Inr None"
          "\<forall>k. nat (j + 1) \<le> k \<and> k < nat (size b) \<longrightarrow> state b ! nat i ! k \<noteq> n"
        by fastforce
      then show ?thesis
      proof cases
        case 1
        with step show ?thesis by auto
      next
        case 2
        have "\<forall>k. nat j \<le> k \<and> k < nat (size b) \<longrightarrow> state b ! nat i ! k \<noteq> n"
        proof (intro allI impI)
          fix k assume k: "nat j \<le> k \<and> k < nat (size b)"
          show "state b ! nat i ! k \<noteq> n"
          proof (cases "k = nat j")
            case True
            with miss show ?thesis by simp
          next
            case False
            with k \<open>0 \<le> j\<close> have "nat (j + 1) \<le> k" by linarith
            with 2(2) k show ?thesis by blast
          qed
        qed
        with step 2(1) show ?thesis by simp
      qed
    qed
  qed
qed

lemma tileIndx_rows_wf:
  "wf_board b \<Longrightarrow> 0 \<le> i \<Longrightarrow> i \<le> size b \<Longrightarrow>
    (\<exists>r k. tileIndx_rows b n i = Inr (r, k, True) \<and> i \<le> r \<and> r < size b \<and> 0 \<le> k \<and> k < size b \<and>
          state b ! nat r ! nat k = n) \<or>
    (tileIndx_rows b n i = Inr (- 1, - 1, False) \<and>
       (\<forall>r k. nat i \<le> r \<and> r < nat (size b) \<and> k < nat (size b) \<longrightarrow> state b ! r ! k \<noteq> n))"
proof (induction b n i rule: tileIndx_rows.induct)
  case (1 b n i)
  show ?case
  proof (cases "i < size b")
    case False
    with "1.prems" show ?thesis by (subst tileIndx_rows.simps) simp
  next
    case True
    from tileIndx_cols_wf[of b i 0 n] "1.prems" True
    consider k where "tileIndx_cols b n i 0 = Inr (Some (i, k, True))"
        "0 \<le> k" "k < size b" "state b ! nat i ! nat k = n"
      | "tileIndx_cols b n i 0 = Inr None"
        "\<forall>k. k < nat (size b) \<longrightarrow> state b ! nat i ! k \<noteq> n"
      by fastforce
    then show ?thesis
    proof cases
      case 1
      have "tileIndx_rows b n i = Inr (i, k, True)"
        using True 1(1) by (subst tileIndx_rows.simps) simp
      with 1 True show ?thesis by auto
    next
      case 2
      have step: "tileIndx_rows b n i = tileIndx_rows b n (i + 1)"
        using True 2(1) by (subst tileIndx_rows.simps) simp
      from "1.IH"[OF True] "1.prems" True
      consider r k where "tileIndx_rows b n (i + 1) = Inr (r, k, True)"
          "i + 1 \<le> r" "r < size b" "0 \<le> k" "k < size b" "state b ! nat r ! nat k = n"
        | "tileIndx_rows b n (i + 1) = Inr (- 1, - 1, False)"
          "\<forall>r k. nat (i + 1) \<le> r \<and> r < nat (size b) \<and> k < nat (size b) \<longrightarrow> state b ! r ! k \<noteq> n"
        by fastforce
      then show ?thesis
      proof cases
        case 1
        with step show ?thesis by auto
      next
        case b2: 2
        have "\<forall>r k. nat i \<le> r \<and> r < nat (size b) \<and> k < nat (size b) \<longrightarrow> state b ! r ! k \<noteq> n"
        proof (intro allI impI)
          fix r k assume rk: "nat i \<le> r \<and> r < nat (size b) \<and> k < nat (size b)"
          show "state b ! r ! k \<noteq> n"
          proof (cases "r = nat i")
            case True
            with 2(2) rk show ?thesis by simp
          next
            case False
            with rk \<open>0 \<le> i\<close> have "nat (i + 1) \<le> r" by linarith
            with b2(2) rk show ?thesis by blast
          qed
        qed
        with step b2(1) show ?thesis by simp
      qed
    qed
  qed
qed

lemma Copy_rows_wf:
  "wf_board b \<Longrightarrow> s = size b \<Longrightarrow> 0 \<le> i \<Longrightarrow> i \<le> s \<Longrightarrow> length st = nat s \<Longrightarrow>
     Copy_rows b s i st = Inr (take (nat i) st @ drop (nat i) (state b))"
proof (induction b s i st rule: Copy_rows.induct)
  case (1 b s i st)
  have len: "length (state b) = nat s" using "1.prems" by (simp add: wf_board_length)
  show ?case
  proof (cases "i < s")
    case False
    with "1.prems" len show ?thesis by (subst Copy_rows.simps) simp
  next
    case True
    let ?k = "nat i"
    let ?src = "state b ! ?k"
    have k: "?k < nat s" using True "1.prems" by simp
    have src: "length ?src = nat s" using wf_board_row[of b ?k] k "1.prems" by simp
    have cp: "copy_slice (replicate (nat s) 0) ?src = ?src"
      using src by (simp add: copy_slice_def)
    have step: "Copy_rows b s i st = Copy_rows b s (i + 1) (st[?k := ?src])"
      using True "1.prems" k len cp
      by (subst Copy_rows.simps) (simp add: make_slice_def set_at_def idx_def)
    have "Copy_rows b s (i + 1) (st[?k := ?src]) =
            Inr (take (nat (i + 1)) (st[?k := ?src]) @ drop (nat (i + 1)) (state b))"
      by (rule "1.IH"[OF True]) (use "1.prems" True in auto)
    also have "nat (i + 1) = Suc ?k" using "1.prems" by simp
    also have "take (Suc ?k) (st[?k := ?src]) = take ?k st @ [?src]"
      using k "1.prems" by (simp add: take_Suc_conv_app_nth)
    finally have "Copy_rows b s i st = Inr (take ?k st @ ?src # drop (Suc ?k) (state b))"
      using step by simp
    then show ?thesis using k len by (simp add: Cons_nth_drop_Suc)
  qed
qed

lemma Copy_wf:
  assumes "wf_board b"
  shows "Copy b = Inr b"
proof -
  have "0 \<le> size b" using assms by (simp add: wf_board_length)
  then have "Copy_rows b (size b) 0 (replicate (nat (size b)) []) = Inr (state b)"
    using Copy_rows_wf[OF assms refl, of 0 "replicate (nat (size b)) []"] by simp
  then show ?thesis using \<open>0 \<le> size b\<close> by (simp add: Copy_def make_slice_def)
qed

lemma set_cell_wf:
  assumes "wf_board c" "0 \<le> i" "i < size c" "0 \<le> j" "j < size c"
  shows "set_cell c i j v = Inr (put c (nat i) (nat j) v)"
proof -
  have l: "int (length (state c)) = size c" using assms(1) by (simp add: wf_board_def)
  have r: "length (state c ! nat i) = nat (size c)"
    using assms by (intro wf_board_row) auto
  show ?thesis using assms l r by (simp add: set_cell_def idx_def set_at_def put_def)
qed

lemma wf_put:
  assumes "wf_board c"
  shows "wf_board (put c i j v)" and "size (put c i j v) = size c"
proof -
  show "size (put c i j v) = size c" by (simp add: put_def)
  have rows: "\<And>row. row \<in> set (state c) \<Longrightarrow> int (length row) = size c"
    using assms by (simp add: wf_board_def list_all_iff)
  have "\<forall>row \<in> set ((state c)[i := (state c ! i)[j := v]]). int (length row) = size c"
  proof (cases "i < length (state c)")
    case True
    then have "int (length ((state c ! i)[j := v])) = size c" using rows by simp
    moreover have "set ((state c)[i := (state c ! i)[j := v]])
        \<subseteq> insert ((state c ! i)[j := v]) (set (state c))"
      by (rule set_update_subset_insert)
    ultimately show ?thesis using rows by auto
  next
    case False
    have "(state c)[i := (state c ! i)[j := v]] = state c"
      by (rule list_update_beyond) (use False in simp)
    then show ?thesis using rows by auto
  qed
  then show "wf_board (put c i j v)"
    using assms by (simp add: wf_board_def put_def list_all_iff)
qed

lemma put_nth:
  assumes "wf_board c" "i < nat (size c)" "j < nat (size c)" "r < nat (size c)"
  shows "state (put c i j v) ! r ! k = (if r = i \<and> k = j then v else state c ! r ! k)"
proof -
  have l: "length (state c) = nat (size c)" using assms(1) by (simp add: wf_board_length)
  have row: "length (state c ! i) = nat (size c)" using assms by (intro wf_board_row)
  show ?thesis using assms l row by (simp add: put_def nth_list_update)
qed

lemma swapped_wf:
  assumes "wf_board b" "0 \<le> i" "i < size b" "0 \<le> j" "j < size b"
    "0 \<le> i'" "i' < size b" "0 \<le> j'" "j' < size b"
  shows "swapped b i j i' j' = Inr (swap_cells b (nat i, nat j) (nat i', nat j'))"
proof -
  let ?c1 = "put b (nat i) (nat j) (state b ! nat i' ! nat j')"
  have c1: "set_cell b i j (state b ! nat i' ! nat j') = Inr ?c1"
    using assms by (intro set_cell_wf)
  have "set_cell ?c1 i' j' (state b ! nat i ! nat j) =
          Inr (put ?c1 (nat i') (nat j') (state b ! nat i ! nat j))"
    using assms wf_put[OF assms(1)] by (intro set_cell_wf) auto
  then show ?thesis
    using assms c1 by (simp add: swapped_def Copy_wf cell_wf swap_cells_def)
qed

lemma swap_cells_wf:
  assumes "wf_board b"
  shows "wf_board (swap_cells b p q)" and "size (swap_cells b p q) = size b"
  using assms by (auto simp: swap_cells_def wf_put split: prod.splits)

lemma swap_cells_nth:
  assumes "wf_board b" "i < nat (size b)" "j < nat (size b)" "i' < nat (size b)" "j' < nat (size b)"
    "r < nat (size b)"
  shows "state (swap_cells b (i, j) (i', j')) ! r ! k =
           (if r = i' \<and> k = j' then state b ! i ! j
            else if r = i \<and> k = j then state b ! i' ! j'
            else state b ! r ! k)"
proof -
  let ?c1 = "put b i j (state b ! i' ! j')"
  have w1: "wf_board ?c1" "size ?c1 = size b" using wf_put[OF assms(1)] by auto
  have A: "state (put ?c1 i' j' (state b ! i ! j)) ! r ! k =
          (if r = i' \<and> k = j' then state b ! i ! j else state ?c1 ! r ! k)"
    using assms w1 by (intro put_nth) auto
  have B: "state ?c1 ! r ! k =
          (if r = i \<and> k = j then state b ! i' ! j' else state b ! r ! k)"
    using assms by (intro put_nth) auto
  have eq: "swap_cells b (i, j) (i', j') = put ?c1 i' j' (state b ! i ! j)"
    by (simp add: swap_cells_def)
  show ?thesis by (simp only: eq A B)
qed

lemma length_concat_rect:
  "\<forall>row \<in> set xss. length row = n \<Longrightarrow> length (concat xss) = length xss * n"
  by (induction xss) auto

lemma concat_nth_rect:
  "\<forall>row \<in> set xss. length row = n \<Longrightarrow> i < length xss \<Longrightarrow> j < n \<Longrightarrow>
     concat xss ! (i * n + j) = xss ! i ! j"
proof (induction xss arbitrary: i)
  case Nil
  then show ?case by simp
next
  case (Cons row xss)
  show ?case
  proof (cases i)
    case 0
    with Cons.prems show ?thesis by (simp add: nth_append)
  next
    case (Suc i')
    with Cons.prems have "concat xss ! (i' * n + j) = xss ! i' ! j"
      by (intro Cons.IH) auto
    with Suc Cons.prems show ?thesis by (simp add: nth_append)
  qed
qed

lemma wf_board_rows:
  assumes "wf_board b"
  shows "\<forall>row \<in> set (state b). length row = nat (size b)"
  using assms by (auto simp: wf_board_def list_all_iff)

lemma flat_length:
  assumes "wf_board b"
  shows "length (concat (state b)) = nat (size b) * nat (size b)"
  using length_concat_rect[OF wf_board_rows[OF assms]] wf_board_length(1)[OF assms] by simp

lemma flat_nth:
  assumes "wf_board b" "i < nat (size b)" "j < nat (size b)"
  shows "concat (state b) ! (i * nat (size b) + j) = state b ! i ! j"
  using concat_nth_rect[OF wf_board_rows[OF assms(1)], of i j] assms
    wf_board_length(1)[OF assms(1)] by simp

lemma cell_index_inj:
  assumes "j < n" "j' < n" "i * n + j = i' * n + (j'::nat)"
  shows "i = i' \<and> j = j'"
proof -
  have "(i * n + j) div n = i" "(i * n + j) mod n = j" using assms(1) by auto
  moreover have "(i' * n + j') div n = i'" "(i' * n + j') mod n = j'" using assms(2) by auto
  ultimately show ?thesis using assms(3) by metis
qed

lemma cell_index_bound:
  assumes "i < n" "j < (n::nat)"
  shows "i * n + j < n * n"
proof -
  have "i * n + j < i * n + n" using assms(2) by simp
  also have "\<dots> = Suc i * n" by simp
  also have "\<dots> \<le> n * n" using assms(1) by (intro mult_le_mono1) simp
  finally show ?thesis .
qed

lemma flat_swap_cells:
  assumes "wf_board b" "i < nat (size b)" "j < nat (size b)" "i' < nat (size b)" "j' < nat (size b)"
  shows "concat (state (swap_cells b (i, j) (i', j'))) =
           (concat (state b))[i' * nat (size b) + j' := concat (state b) ! (i * nat (size b) + j),
                              i * nat (size b) + j := concat (state b) ! (i' * nat (size b) + j')]"
    (is "?ys = ?xs[?q := ?xs ! ?p, ?p := ?xs ! ?q]")
proof (rule nth_equalityI)
  let ?n = "nat (size b)"
  let ?c = "swap_cells b (i, j) (i', j')"
  have wc: "wf_board ?c" "size ?c = size b" using swap_cells_wf[OF assms(1)] by auto
  show len: "length ?ys = length (?xs[?q := ?xs ! ?p, ?p := ?xs ! ?q])"
    using flat_length[OF wc(1)] flat_length[OF assms(1)] wc(2) by simp
  fix k assume "k < length ?ys"
  then have k: "k < ?n * ?n" using flat_length[OF wc(1)] wc(2) by simp
  then have npos: "0 < ?n" by (cases "?n") auto
  let ?r = "k div ?n" and ?m = "k mod ?n"
  have r: "?r < ?n" using k by (simp add: less_mult_imp_div_less)
  have m: "?m < ?n" using npos by simp
  have kk: "k = ?r * ?n + ?m" by simp
  have pq: "?p < ?n * ?n" "?q < ?n * ?n" using assms by (auto intro: cell_index_bound)
  have "?ys ! k = state ?c ! ?r ! ?m"
    using flat_nth[OF wc(1), of ?r ?m] r m wc(2) by simp
  also have "\<dots> = (if ?r = i' \<and> ?m = j' then state b ! i ! j
            else if ?r = i \<and> ?m = j then state b ! i' ! j'
            else state b ! ?r ! ?m)"
    using assms r by (intro swap_cells_nth)
  also have "\<dots> = (if k = ?q then ?xs ! ?p else if k = ?p then ?xs ! ?q else ?xs ! k)"
  proof -
    have e1: "(?r = i' \<and> ?m = j') \<longleftrightarrow> k = ?q"
      using cell_index_inj[of ?m ?n j' ?r i'] m assms kk by auto
    have e2: "(?r = i \<and> ?m = j) \<longleftrightarrow> k = ?p"
      using cell_index_inj[of ?m ?n j ?r i] m assms kk by auto
    have v1: "state b ! i ! j = ?xs ! ?p" using flat_nth[OF assms(1), of i j] assms by simp
    have v2: "state b ! i' ! j' = ?xs ! ?q" using flat_nth[OF assms(1), of i' j'] assms by simp
    have v3: "state b ! ?r ! ?m = ?xs ! k" using flat_nth[OF assms(1), of ?r ?m] r m by simp
    show ?thesis by (simp only: e1 e2 v1 v2 v3)
  qed
  also have "\<dots> = ?xs[?q := ?xs ! ?p, ?p := ?xs ! ?q] ! k"
    using k pq flat_length[OF assms(1)] by (auto simp: nth_list_update)
  finally show "?ys ! k = ?xs[?q := ?xs ! ?p, ?p := ?xs ! ?q] ! k" .
qed

lemma mset_swap_cells:
  assumes "wf_board b" "i < nat (size b)" "j < nat (size b)" "i' < nat (size b)" "j' < nat (size b)"
  shows "mset (concat (state (swap_cells b (i, j) (i', j')))) = mset (concat (state b))"
proof -
  have "i * nat (size b) + j < length (concat (state b))"
    "i' * nat (size b) + j' < length (concat (state b))"
    using assms flat_length[OF assms(1)] by (auto intro: cell_index_bound)
  then show ?thesis
    unfolding flat_swap_cells[OF assms] by (rule mset_swap)
qed

lemma valid_swap_cells:
  assumes "valid_board b" "i < nat (size b)" "j < nat (size b)" "i' < nat (size b)" "j' < nat (size b)"
  shows "valid_board (swap_cells b (i, j) (i', j'))"
proof -
  have wf: "wf_board b" using assms(1) unfolding valid_board_def by blast
  let ?c = "swap_cells b (i, j) (i', j')"
  have "mset (sort (concat (state b))) = mset (concat (state ?c))"
    using mset_swap_cells[OF wf assms(2-)] by simp
  then have "sort (concat (state ?c)) = sort (concat (state b))"
    by (rule properties_for_sort) simp
  then show ?thesis
    using assms(1) swap_cells_wf[OF wf, of "(i, j)" "(i', j')"]
    unfolding valid_board_def by simp
qed

lemma valid_board_distinct:
  assumes "valid_board b"
  shows "distinct (concat (state b))"
proof -
  have "distinct [0..size b * size b - 1]" by simp
  then show ?thesis
    using valid_board_mset[OF assms] by (metis mset_eq_imp_distinct_iff)
qed

lemma valid_board_cell_inj:
  assumes "valid_board b" "i < nat (size b)" "j < nat (size b)" "i' < nat (size b)" "j' < nat (size b)"
    "state b ! i ! j = state b ! i' ! j'"
  shows "i = i' \<and> j = j'"
proof -
  have wf: "wf_board b" using assms(1) unfolding valid_board_def by blast
  let ?n = "nat (size b)"
  let ?xs = "concat (state b)"
  have "?xs ! (i * ?n + j) = ?xs ! (i' * ?n + j')"
    using flat_nth[OF wf assms(2,3)] flat_nth[OF wf assms(4,5)] assms(6) by simp
  moreover have "i * ?n + j < length ?xs" "i' * ?n + j' < length ?xs"
    using assms flat_length[OF wf] by (auto intro: cell_index_bound)
  ultimately have "i * ?n + j = i' * ?n + j'"
    using valid_board_distinct[OF assms(1)] by (simp add: nth_eq_iff_index_eq)
  then show ?thesis using cell_index_inj[of j ?n j' i i'] assms by simp
qed

lemma append_swapped_wf:
  assumes "wf_board b" "0 \<le> i" "i < size b" "0 \<le> j" "j < size b"
    "inside \<Longrightarrow> 0 \<le> i' \<and> i' < size b \<and> 0 \<le> j' \<and> j' < size b"
  shows "append_swapped inside b i j i' j' ns =
           Inr (ns @ (if inside then [swap_cells b (nat i, nat j) (nat i', nat j')] else []))"
proof (cases inside)
  case True
  with assms have "swapped b i j i' j' = Inr (swap_cells b (nat i, nat j) (nat i', nat j'))"
    by (intro swapped_wf) auto
  with True show ?thesis by (simp add: append_swapped_def)
next
  case False
  then show ?thesis by (simp add: append_swapped_def)
qed

lemma FindNeighbors_at:
  assumes "wf_board b" "tileIndx b x = Inr (i, j, True)" "0 \<le> i" "i < size b" "0 \<le> j" "j < size b"
  shows "FindNeighbors b x =
           Inr (map (swap_cells b (nat i, nat j)) (directions (nat (size b)) (nat i) (nat j)))"
proof -
  let ?p = "(nat i, nat j)"
  let ?up = "if i - 1 \<ge> 0 then [swap_cells b ?p (nat (i - 1), nat j)] else []"
  let ?down = "if i + 1 < size b then [swap_cells b ?p (nat (i + 1), nat j)] else []"
  let ?left = "if j - 1 \<ge> 0 then [swap_cells b ?p (nat i, nat (j - 1))] else []"
  let ?right = "if j + 1 < size b then [swap_cells b ?p (nat i, nat (j + 1))] else []"
  have 1: "append_swapped (i - 1 \<ge> 0) b i j (i - 1) j [] = Inr ([] @ ?up)"
    using assms by (intro append_swapped_wf) auto
  have 2: "append_swapped (i + 1 < size b) b i j (i + 1) j ?up = Inr (?up @ ?down)"
    using assms by (intro append_swapped_wf) auto
  have 3: "append_swapped (j - 1 \<ge> 0) b i j i (j - 1) (?up @ ?down) = Inr ((?up @ ?down) @ ?left)"
    using assms by (intro append_swapped_wf) auto
  have 4: "append_swapped (j + 1 < size b) b i j i (j + 1) ((?up @ ?down) @ ?left)
             = Inr (((?up @ ?down) @ ?left) @ ?right)"
    using assms by (intro append_swapped_wf) auto
  have "FindNeighbors b x = Inr (((?up @ ?down) @ ?left) @ ?right)"
    unfolding FindNeighbors_def assms(2) using 1 2 3 4 by simp
  also have "((?up @ ?down) @ ?left) @ ?right =
      map (swap_cells b ?p) (directions (nat (size b)) (nat i) (nat j))"
  proof -
    have a: "(i - 1 \<ge> 0) \<longleftrightarrow> 0 < nat i" "nat (i - 1) = nat i - 1" using assms(3) by auto
    have b: "(i + 1 < size b) \<longleftrightarrow> nat i + 1 < nat (size b)" "nat (i + 1) = nat i + 1"
      using assms(3) by auto
    have c: "(j - 1 \<ge> 0) \<longleftrightarrow> 0 < nat j" "nat (j - 1) = nat j - 1" using assms(5) by auto
    have d: "(j + 1 < size b) \<longleftrightarrow> nat j + 1 < nat (size b)" "nat (j + 1) = nat j + 1"
      using assms(5) by auto
    show ?thesis unfolding a b c d by (simp add: directions_def)
  qed
  finally show ?thesis .
qed

lemma tileIndx_valid:
  assumes "valid_board b" "i < nat (size b)" "j < nat (size b)"
  shows "tileIndx b (state b ! i ! j) = Inr (int i, int j, True)"
proof -
  have wf: "wf_board b" using assms(1) unfolding valid_board_def by blast
  have s0: "0 \<le> size b" using wf by (simp add: wf_board_length)
  from tileIndx_rows_wf[OF wf, of 0 "state b ! i ! j"] s0
  consider r k where "tileIndx_rows b (state b ! i ! j) 0 = Inr (r, k, True)"
      "0 \<le> r" "r < size b" "0 \<le> k" "k < size b" "state b ! nat r ! nat k = state b ! i ! j"
    | "\<forall>r k. r < nat (size b) \<and> k < nat (size b) \<longrightarrow> state b ! r ! k \<noteq> state b ! i ! j"
    by fastforce
  then show ?thesis
  proof cases
    case 1
    have "nat r = i \<and> nat k = j"
      using 1 assms by (intro valid_board_cell_inj[OF assms(1)]) auto
    with 1 show ?thesis by (auto simp: tileIndx_def)
  next
    case 2
    with assms show ?thesis by blast
  qed
qed

lemma tileIndx_absent:
  assumes "wf_board b" "v \<notin> set (concat (state b))"
  shows "tileIndx b v = Inr (- 1, - 1, False)"
proof -
  have s0: "0 \<le> size b" using assms(1) by (simp add: wf_board_length)
  have no: "\<And>r k. r < nat (size b) \<Longrightarrow> k < nat (size b) \<Longrightarrow> state b ! r ! k \<noteq> v"
  proof
    fix r k assume rk: "r < nat (size b)" "k < nat (size b)" "state b ! r ! k = v"
    have "state b ! r \<in> set (state b)" using rk(1) wf_board_length(1)[OF assms(1)] by simp
    moreover have "v \<in> set (state b ! r)"
      using rk wf_board_row[OF assms(1) rk(1)] by (metis nth_mem)
    ultimately show False using assms(2) by auto
  qed
  from tileIndx_rows_wf[OF assms(1), of 0 v] s0
  consider r k where "0 \<le> r" "r < size b" "0 \<le> k" "k < size b" "state b ! nat r ! nat k = v"
    | "tileIndx_rows b v 0 = Inr (- 1, - 1, False)"
    by fastforce
  then show ?thesis
  proof cases
    case 1
    with no[of "nat r" "nat k"] show ?thesis by auto
  next
    case 2
    then show ?thesis by (simp add: tileIndx_def)
  qed
qed

lemma FindNeighbors_absent:
  assumes "wf_board b" "v \<notin> set (concat (state b))"
  shows "FindNeighbors b v = Inr []"
  by (simp add: FindNeighbors_def tileIndx_absent[OF assms])

lemma FindNeighbors_valid:
  assumes "valid_board b" "i < nat (size b)" "j < nat (size b)"
  shows "FindNeighbors b (state b ! i ! j) =
           Inr (map (swap_cells b (i, j)) (directions (nat (size b)) i j))"
proof -
  have wf: "wf_board b" using assms(1) unfolding valid_board_def by blast
  from FindNeighbors_at[OF wf tileIndx_valid[OF assms]] assms(2,3)
  show ?thesis by simp
qed

lemma length_directions:
  assumes "2 \<le> n" "i < n" "j < n"
  shows "length (directions n i j) =
           (if (i = 0 \<or> i = n - 1) \<and> (j = 0 \<or> j = n - 1) then 2
            else if i = 0 \<or> i = n - 1 \<or> j = 0 \<or> j = n - 1 then 3 else 4)"
  using assms by (auto simp: directions_def)

lemma directions_range:
  assumes "q \<in> set (directions n i j)" "i < n" "j < n"
  shows "fst q < n \<and> snd q < n \<and> q \<noteq> (i, j)"
  using assms by (auto simp: directions_def split: if_splits)

lemma swap_cells_diff:
  assumes "valid_board b" "i < nat (size b)" "j < nat (size b)" "i' < nat (size b)" "j' < nat (size b)"
    "(i', j') \<noteq> (i, j)"
  shows "{(r, k). r < nat (size b) \<and> k < nat (size b) \<and>
            state (swap_cells b (i, j) (i', j')) ! r ! k \<noteq> state b ! r ! k} = {(i, j), (i', j')}"
proof -
  have wf: "wf_board b" using assms(1) unfolding valid_board_def by blast
  have ne: "state b ! i ! j \<noteq> state b ! i' ! j'"
    using valid_board_cell_inj[OF assms(1-5)] assms(6) by auto
  have nth: "\<And>r k. r < nat (size b) \<Longrightarrow> state (swap_cells b (i, j) (i', j')) ! r ! k =
           (if r = i' \<and> k = j' then state b ! i ! j
            else if r = i \<and> k = j then state b ! i' ! j'
            else state b ! r ! k)"
    using assms by (intro swap_cells_nth[OF wf]) auto
  show ?thesis using ne assms(2-5) by (auto simp: nth split: if_splits)
qed

text \<open>
  C4 (amended). On a valid board of size at least 2, \<open>FindNeighbors\<close> for the tile in cell
  \<open>(i, j)\<close> returns the boards with that cell and a cell next to it exchanged, in the order
  up, down, left, right, the directions that leave the grid skipped: 2 boards from a
  corner, 3 from an edge, 4 from the interior. Each of them is a valid board of the same
  size with the same tiles, and differs from \<open>b\<close> in exactly the two exchanged cells. For a
  value that is not on the board the result is empty. (On the board of size 1 the result
  is empty as well: see the counterexample.)
\<close>

theorem FindNeighbors_swaps:
  "(valid_board b \<and> 2 \<le> size b \<and> i < nat (size b) \<and> j < nat (size b) \<longrightarrow>
      FindNeighbors b (state b ! i ! j) =
        Inr (map (swap_cells b (i, j)) (directions (nat (size b)) i j)) \<and>
      length (directions (nat (size b)) i j) =
        (if (i = 0 \<or> i = nat (size b) - 1) \<and> (j = 0 \<or> j = nat (size b) - 1) then 2
         else if i = 0 \<or> i = nat (size b) - 1 \<or> j = 0 \<or> j = nat (size b) - 1 then 3 else 4) \<and>
      (\<forall>q \<in> set (directions (nat (size b)) i j).
         valid_board (swap_cells b (i, j) q) \<and>
         size (swap_cells b (i, j) q) = size b \<and>
         mset (concat (state (swap_cells b (i, j) q))) = mset (concat (state b)) \<and>
         {(r, k). r < nat (size b) \<and> k < nat (size b) \<and>
            state (swap_cells b (i, j) q) ! r ! k \<noteq> state b ! r ! k} = {(i, j), q}))
   \<and> (wf_board b \<and> v \<notin> set (concat (state b)) \<longrightarrow> FindNeighbors b v = Inr [])"
proof (intro conjI impI ballI)
  assume "wf_board b \<and> v \<notin> set (concat (state b))"
  then show "FindNeighbors b v = Inr []" by (simp add: FindNeighbors_absent)
next
  assume a: "valid_board b \<and> 2 \<le> size b \<and> i < nat (size b) \<and> j < nat (size b)"
  then show "FindNeighbors b (state b ! i ! j) =
        Inr (map (swap_cells b (i, j)) (directions (nat (size b)) i j))"
    by (simp add: FindNeighbors_valid)
  from a show "length (directions (nat (size b)) i j) =
        (if (i = 0 \<or> i = nat (size b) - 1) \<and> (j = 0 \<or> j = nat (size b) - 1) then 2
         else if i = 0 \<or> i = nat (size b) - 1 \<or> j = 0 \<or> j = nat (size b) - 1 then 3 else 4)"
    by (intro length_directions) auto
next
  fix q
  assume a: "valid_board b \<and> 2 \<le> size b \<and> i < nat (size b) \<and> j < nat (size b)"
    and q: "q \<in> set (directions (nat (size b)) i j)"
  obtain i' j' where qq: "q = (i', j')" by (cases q)
  have r: "i' < nat (size b)" "j' < nat (size b)" "(i', j') \<noteq> (i, j)"
    using directions_range[OF q] a qq by auto
  have wf: "wf_board b" using a unfolding valid_board_def by blast
  show "valid_board (swap_cells b (i, j) q)"
    unfolding qq using a r by (intro valid_swap_cells) auto
  show "size (swap_cells b (i, j) q) = size b"
    by (rule swap_cells_wf(2)[OF wf])
  show "mset (concat (state (swap_cells b (i, j) q))) = mset (concat (state b))"
    unfolding qq using a r wf by (intro mset_swap_cells) auto
  show "{(r, k). r < nat (size b) \<and> k < nat (size b) \<and>
            state (swap_cells b (i, j) q) ! r ! k \<noteq> state b ! r ! k} = {(i, j), q}"
    unfolding qq using a r by (intro swap_cells_diff) auto
qed

lemma valid_board_a: "valid_board board_a"
  by (simp add: valid_board_def wf_board_def board_a_def upto_rec1)

theorem FindNeighbors_swaps_witness:
  "valid_board board_a \<and> 2 \<le> size board_a \<and> (0::nat) < nat (size board_a) \<and>
   (1::nat) < nat (size board_a) \<and> state board_a ! 0 ! 1 = 0 \<and>
   FindNeighbors board_a 0 =
     Inr [\<lparr>size = 2, state = [[1, 3], [2, 0]]\<rparr>, \<lparr>size = 2, state = [[0, 1], [2, 3]]\<rparr>] \<and>
   wf_board board_a \<and> 7 \<notin> set (concat (state board_a)) \<and> FindNeighbors board_a 7 = Inr []"
proof -
  have h: "valid_board board_a \<and> 2 \<le> size board_a \<and> (0::nat) < nat (size board_a) \<and>
      (1::nat) < nat (size board_a)"
    using valid_board_a by (simp add: board_a_def)
  have w: "wf_board board_a \<and> 7 \<notin> set (concat (state board_a))"
    by (simp add: wf_board_def board_a_def)
  have c: "state board_a ! 0 ! 1 = 0" by (simp add: board_a_def)
  have m: "map (swap_cells board_a (0, 1)) (directions (nat (size board_a)) 0 1) =
      [\<lparr>size = 2, state = [[1, 3], [2, 0]]\<rparr>, \<lparr>size = 2, state = [[0, 1], [2, 3]]\<rparr>]"
    by (simp add: directions_def swap_cells_def put_def board_a_def)
  from FindNeighbors_swaps[of board_a 0 1 7] h w c m show ?thesis by simp
qed

theorem FindNeighbors_size_one_counterexample:
  "valid_board board_one \<and> state board_one ! 0 ! 0 = 0 \<and> FindNeighbors board_one 0 = Inr []"
proof -
  have v: "valid_board board_one"
    by (simp add: valid_board_def wf_board_def board_one_def upto_rec1)
  have c: "state board_one ! 0 ! 0 = 0" by (simp add: board_one_def)
  have "FindNeighbors board_one (state board_one ! 0 ! 0) =
      Inr (map (swap_cells board_one (0, 0)) (directions (nat (size board_one)) 0 0))"
    using v by (intro FindNeighbors_valid) (simp_all add: board_one_def)
  moreover have "directions (nat (size board_one)) 0 0 = []"
    by (simp add: directions_def board_one_def)
  ultimately show ?thesis using v c by simp
qed

section \<open>Two boards of size 2\<close>

lemma valid_board_wf: "valid_board b \<Longrightarrow> wf_board b"
  unfolding valid_board_def by blast

lemma valid_board_goal2: "valid_board board_goal2"
  by (simp add: valid_board_def wf_board_def board_goal2_def upto_rec1)

lemma neighbors_board_a:
  "FindNeighbors board_a 0 =
     Inr [\<lparr>size = 2, state = [[1, 3], [2, 0]]\<rparr>, board_goal2]"
proof -
  have "FindNeighbors board_a (state board_a ! 0 ! 1) =
      Inr (map (swap_cells board_a (0, 1)) (directions (nat (size board_a)) 0 1))"
    using valid_board_a by (intro FindNeighbors_valid) (simp_all add: board_a_def)
  then show ?thesis
    by (simp add: directions_def swap_cells_def put_def board_a_def board_goal2_def)
qed

lemma neighbors_board_goal2:
  "FindNeighbors board_goal2 0 =
     Inr [\<lparr>size = 2, state = [[2, 1], [0, 3]]\<rparr>, board_a]"
proof -
  have "FindNeighbors board_goal2 (state board_goal2 ! 0 ! 0) =
      Inr (map (swap_cells board_goal2 (0, 0)) (directions (nat (size board_goal2)) 0 0))"
    using valid_board_goal2 by (intro FindNeighbors_valid) (simp_all add: board_goal2_def)
  then show ?thesis
    by (simp add: directions_def swap_cells_def put_def board_a_def board_goal2_def)
qed

lemma DiffN_goal2_goal2: "DiffN board_goal2 board_goal2 = Inr 0"
  by (simp add: DiffN_def DiffN_rows.simps DiffN_cols.simps cell_def idx_def board_goal2_def)

lemma DiffN_a_goal2: "DiffN board_a board_goal2 = Inr 1"
  by (simp add: DiffN_def DiffN_rows.simps DiffN_cols.simps cell_def idx_def
      board_a_def board_goal2_def)

declare SA_inner.simps [simp del]

lemma arith_ex_simps:
  "f64_of_int arith_ex i = Finite (real_of_int i)"
  "f64_mul arith_ex (Finite x) (Finite y) = Finite (x * y)"
  "y \<noteq> 0 \<Longrightarrow> f64_div arith_ex (Finite x) (Finite y) = Finite (x / y)"
  "math_Exp arith_ex (Finite x) = (if x < - 746 then Finite 0 else Finite (exp x))"
  by (simp_all add: arith_ex_def)

lemma sa_params_ex_simps:
  "Iterations sa_params_ex = 2" "TemperatureMin sa_params_ex = Finite (1 / 2)"
  "Alpha sa_params_ex = Finite (1 / 4)" "MaxTime sa_params_ex = 10"
  "Objective sa_params_ex = board_goal2"
  by (simp_all add: sa_params_ex_def)

section \<open>The Metropolis criterion\<close>




section \<open>What simulated annealing sends\<close>

declare SA_inner_candidates.simps [simp del]

lemma SA_iteration_step:
  assumes "SA_iteration fa p s = Inr s'"
  shows "\<exists>d. DiffN (SA_candidate s) (Objective p) = Inr d \<and>
           minDiff s' = (if d < minDiff s then d else minDiff s) \<and>
           (currentBoard s' = SA_candidate s \<and> currentDiff s' = d \<or>
            currentBoard s' = currentBoard s \<and> currentDiff s' = currentDiff s) \<and>
           temperature s' = temperature s"
proof -
  from assms obtain cg where fn: "FindNeighborRand (generator s) (currentBoard s) 0 = Inr cg"
    and r0: "(case cg of (candidate, g1) \<Rightarrow>
       (case candidate of
          None \<Rightarrow> Inl NilDereference
        | Some candidateBoard \<Rightarrow>
            bindE (DiffN candidateBoard (Objective p)) (\<lambda>candidateDiff.
              let m = (if candidateDiff < minDiff s then candidateDiff else minDiff s);
                  (accept, g2) = AcceptCandidate fa g1 (currentDiff s) candidateDiff (temperature s)
              in Inr (if accept
                      then s\<lparr>currentBoard := candidateBoard, currentDiff := candidateDiff,
                             minDiff := m, generator := g2\<rparr>
                      else s\<lparr>minDiff := m, generator := g2\<rparr>)))) = Inr s'"
    unfolding SA_iteration_def bindE_eq_Inr by blast
  obtain candidate g1 where cg: "cg = (candidate, g1)" by (cases cg)
  from r0 cg obtain c where c: "candidate = Some c" by (cases candidate) auto
  have cand: "SA_candidate s = c" by (simp add: SA_candidate_def fn cg c)
  from r0 cg c obtain d where d: "DiffN c (Objective p) = Inr d"
    and r: "(let m = (if d < minDiff s then d else minDiff s);
                 (accept, g2) = AcceptCandidate fa g1 (currentDiff s) d (temperature s)
             in (Inr (if accept
                     then s\<lparr>currentBoard := c, currentDiff := d, minDiff := m, generator := g2\<rparr>
                     else s\<lparr>minDiff := m, generator := g2\<rparr>) :: error + SA_vars)) = Inr s'"
    by (auto simp: bindE_eq_Inr)
  obtain accept g2 where
    acc: "AcceptCandidate fa g1 (currentDiff s) d (temperature s) = (accept, g2)"
    by (cases "AcceptCandidate fa g1 (currentDiff s) d (temperature s)")
  from r acc have "minDiff s' = (if d < minDiff s then d else minDiff s) \<and>
           (currentBoard s' = c \<and> currentDiff s' = d \<or>
            currentBoard s' = currentBoard s \<and> currentDiff s' = currentDiff s) \<and>
           temperature s' = temperature s"
    by (cases accept) (auto simp: Let_def)
  with d cand show ?thesis by auto
qed

lemma SA_iteration_tracks:
  assumes "SA_iteration fa p s = Inr s'" "SA_tracks (Objective p) seen s"
  shows "SA_tracks (Objective p) (seen @ [SA_candidate s]) s'"
proof -
  let ?c = "SA_candidate s"
  from SA_iteration_step[OF assms(1)] obtain d where d: "DiffN ?c (Objective p) = Inr d"
    and m: "minDiff s' = (if d < minDiff s then d else minDiff s)"
    and cur: "currentBoard s' = ?c \<and> currentDiff s' = d \<or>
            currentBoard s' = currentBoard s \<and> currentDiff s' = currentDiff s"
    by blast
  from assms(2) have a: "currentBoard s \<in> set seen"
    and b: "DiffN (currentBoard s) (Objective p) = Inr (currentDiff s)"
    and lo: "\<exists>c \<in> set seen. DiffN c (Objective p) = Inr (minDiff s)"
    and all: "\<forall>c \<in> set seen. \<exists>d. DiffN c (Objective p) = Inr d \<and> minDiff s \<le> d"
    unfolding SA_tracks_def by blast+
  have 1: "currentBoard s' \<in> set (seen @ [?c])" using cur a by auto
  have 2: "DiffN (currentBoard s') (Objective p) = Inr (currentDiff s')" using cur b d by auto
  have 3: "\<exists>c \<in> set (seen @ [?c]). DiffN c (Objective p) = Inr (minDiff s')"
  proof (cases "d < minDiff s")
    case True
    with m d show ?thesis by auto
  next
    case False
    with m lo show ?thesis by auto
  qed
  have 4: "\<forall>c \<in> set (seen @ [?c]). \<exists>d. DiffN c (Objective p) = Inr d \<and> minDiff s' \<le> d"
  proof
    fix c assume "c \<in> set (seen @ [?c])"
    then consider "c \<in> set seen" | "c = ?c" by auto
    then show "\<exists>d. DiffN c (Objective p) = Inr d \<and> minDiff s' \<le> d"
    proof cases
      case 1
      with all obtain e where "DiffN c (Objective p) = Inr e" "minDiff s \<le> e" by blast
      with m show ?thesis by auto
    next
      case 2
      with d m show ?thesis by auto
    qed
  qed
  from 1 2 3 4 show ?thesis unfolding SA_tracks_def by blast
qed

lemma SA_inner_tracks:
  "SA_inner fa p i s = Inr s' \<Longrightarrow> SA_tracks (Objective p) seen s \<Longrightarrow>
     SA_tracks (Objective p) (seen @ SA_inner_candidates fa p i s) s'"
proof (induction fa p i s arbitrary: seen rule: SA_inner.induct)
  case (1 fa p i s)
  show ?case
  proof (cases "i < Iterations p")
    case False
    with "1.prems" show ?thesis
      by (subst (asm) SA_inner.simps, subst SA_inner_candidates.simps) simp
  next
    case True
    from "1.prems"(1) True obtain s1 where s1: "SA_iteration fa p s = Inr s1"
      and r: "SA_inner fa p (i + 1) s1 = Inr s'"
      by (subst (asm) SA_inner.simps) (auto simp: bindE_eq_Inr)
    have t: "SA_tracks (Objective p) (seen @ [SA_candidate s]) s1"
      using SA_iteration_tracks[OF s1 "1.prems"(2)] .
    have "SA_tracks (Objective p)
            ((seen @ [SA_candidate s]) @ SA_inner_candidates fa p (i + 1) s1) s'"
      using "1.IH"[OF True r t] .
    moreover have "SA_inner_candidates fa p i s =
        SA_candidate s # SA_inner_candidates fa p (i + 1) s1"
      using True s1 by (subst SA_inner_candidates.simps) simp
    ultimately show ?thesis by simp
  qed
qed

lemma SA_tracks_temperature:
  "SA_tracks target seen (s\<lparr>temperature := t\<rparr>) = SA_tracks target seen s"
  by (simp add: SA_tracks_def)

lemma SA_outer_tracks:
  "SA_outer fa fuel since p k s ch = Some (Inr (ch', s')) \<Longrightarrow> SA_tracks (Objective p) seen s \<Longrightarrow>
     SA_tracks (Objective p) (seen @ SA_outer_candidates fa fuel since p k s) s' \<and>
     ch' = SA_report s' ch \<and>
     (\<not> f64_less (TemperatureMin p) (temperature s') \<or>
      (\<exists>j. k \<le> j \<and> j < k + fuel \<and> MaxTime p < since j))"
proof (induction fuel arbitrary: k s seen)
  case 0
  then show ?case by simp
next
  case (Suc fuel)
  show ?case
  proof (cases "f64_less (TemperatureMin p) (temperature s)")
    case False
    with Suc.prems show ?thesis by auto
  next
    case True
    show ?thesis
    proof (cases "SA_inner fa p 0 s")
      case (Inl e)
      with Suc.prems True show ?thesis by simp
    next
      case (Inr s1)
      let ?s2 = "s1\<lparr>temperature := f64_mul fa (temperature s1) (Alpha p)\<rparr>"
      let ?seen1 = "seen @ SA_inner_candidates fa p 0 s"
      have t: "SA_tracks (Objective p) ?seen1 ?s2"
        using SA_inner_tracks[OF Inr Suc.prems(2)] by (simp add: SA_tracks_temperature)
      show ?thesis
      proof (cases "since k > MaxTime p")
        case b: True
        with Suc.prems(1) True Inr have "ch' = SA_report ?s2 ch" "s' = ?s2"
          by (auto simp: Let_def)
        moreover have "SA_outer_candidates fa (Suc fuel) since p k s =
            SA_inner_candidates fa p 0 s"
          using True Inr b by simp
        moreover have "\<exists>j. k \<le> j \<and> j < k + Suc fuel \<and> MaxTime p < since j"
          using b by (intro exI[of _ k]) simp
        ultimately show ?thesis using t by simp
      next
        case f: False
        with Suc.prems(1) True Inr
        have r: "SA_outer fa fuel since p (k + 1) ?s2 ch = Some (Inr (ch', s'))"
          by (simp add: Let_def)
        from Suc.IH[OF r t]
        have ih: "SA_tracks (Objective p)
                    (?seen1 @ SA_outer_candidates fa fuel since p (k + 1) ?s2) s'"
          and rep: "ch' = SA_report s' ch"
          and ex: "\<not> f64_less (TemperatureMin p) (temperature s') \<or>
             (\<exists>j. k + 1 \<le> j \<and> j < k + 1 + fuel \<and> MaxTime p < since j)"
          by blast+
        have c: "SA_outer_candidates fa (Suc fuel) since p k s =
            SA_inner_candidates fa p 0 s @ SA_outer_candidates fa fuel since p (k + 1) ?s2"
          using True Inr f by simp
        have ex': "\<not> f64_less (TemperatureMin p) (temperature s') \<or>
             (\<exists>j. k \<le> j \<and> j < k + Suc fuel \<and> MaxTime p < since j)"
        proof (cases "f64_less (TemperatureMin p) (temperature s')")
          case False
          then show ?thesis by simp
        next
          case True
          with ex obtain j where "k + 1 \<le> j" "j < k + 1 + fuel" "MaxTime p < since j" by blast
          then have "k \<le> j \<and> j < k + Suc fuel \<and> MaxTime p < since j" by simp
          then show ?thesis by blast
        qed
        from ih rep ex' show ?thesis unfolding c by simp
      qed
    qed
  qed
qed

lemma SA_outer_returns:
  "\<exists>j. k \<le> j \<and> j < k + fuel \<and> MaxTime p < since j \<Longrightarrow>
     SA_outer fa fuel since p k s ch \<noteq> None"
proof (induction fuel arbitrary: k s)
  case 0
  then show ?case by auto
next
  case (Suc fuel)
  show ?case
  proof (cases "f64_less (TemperatureMin p) (temperature s)")
    case False
    then show ?thesis by simp
  next
    case True
    show ?thesis
    proof (cases "SA_inner fa p 0 s")
      case (Inl e)
      with True show ?thesis by simp
    next
      case (Inr s1)
      let ?s2 = "s1\<lparr>temperature := f64_mul fa (temperature s1) (Alpha p)\<rparr>"
      show ?thesis
      proof (cases "since k > MaxTime p")
        case b: True
        with True Inr show ?thesis by (simp add: Let_def)
      next
        case f: False
        from Suc.prems obtain j where j: "k \<le> j" "j < k + Suc fuel" "MaxTime p < since j"
          by blast
        with f have "j \<noteq> k" by auto
        with j have "k + 1 \<le> j \<and> j < k + 1 + fuel \<and> MaxTime p < since j" by simp
        then have "\<exists>j. k + 1 \<le> j \<and> j < k + 1 + fuel \<and> MaxTime p < since j" by blast
        from Suc.IH[OF this] have "SA_outer fa fuel since p (k + 1) ?s2 ch \<noteq> None" .
        with True Inr f show ?thesis by (simp add: Let_def)
      qed
    qed
  qed
qed

text \<open>
  C6. \<open>MinDiffSA\<close> returns once the time budget is found exceeded. Whenever it returns, it
  has left the outer loop by one of its two exits: the temperature is no longer above
  \<open>TemperatureMin\<close>, or the budget was exceeded. At that point \<open>currentDiff\<close> is the diff
  of the final current board, which is one of the boards scored, and \<open>minDiff\<close> is the
  least diff of all boards scored, so \<open>minDiff \<le> currentDiff\<close>. What it has sent is
  \<open>minDiff\<close> followed by \<open>currentDiff\<close> when \<open>minDiff < currentDiff\<close> (two values), and
  \<open>currentDiff\<close> alone otherwise, which is when the two are equal (one value).
\<close>

theorem MinDiffSA_sends:
  "((\<exists>k < fuel. MaxTime p < since k) \<longrightarrow> MinDiffSA fa fuel since g b p ch \<noteq> None)
   \<and> (MinDiffSA fa fuel since g b p ch = Some (Inr (ch', s)) \<longrightarrow>
        (\<not> f64_less (TemperatureMin p) (temperature s) \<or> (\<exists>k < fuel. MaxTime p < since k))
        \<and> currentBoard s \<in> set (SA_scored fa fuel since g b p)
        \<and> DiffN (currentBoard s) (Objective p) = Inr (currentDiff s)
        \<and> (\<exists>c \<in> set (SA_scored fa fuel since g b p). DiffN c (Objective p) = Inr (minDiff s))
        \<and> (\<forall>c \<in> set (SA_scored fa fuel since g b p).
              \<exists>d. DiffN c (Objective p) = Inr d \<and> minDiff s \<le> d)
        \<and> minDiff s \<le> currentDiff s
        \<and> ch' = ch @ (if minDiff s < currentDiff s then [minDiff s, currentDiff s]
                       else [currentDiff s]))"
proof (intro conjI impI)
  assume "\<exists>k < fuel. MaxTime p < since k"
  then have e: "\<exists>j. 0 \<le> j \<and> j < 0 + fuel \<and> MaxTime p < since j" by simp
  show "MinDiffSA fa fuel since g b p ch \<noteq> None"
    unfolding MinDiffSA_def using SA_outer_returns[OF e] by (simp split: sum.splits)
next
  assume res: "MinDiffSA fa fuel since g b p ch = Some (Inr (ch', s))"
  let ?s0 = "\<lparr>currentBoard = b, currentDiff = d, minDiff = d, temperature = Finite 1,
               generator = g\<rparr>"
  from res obtain d where d: "DiffN b (Objective p) = Inr d"
    and r: "SA_outer fa fuel since p 0
              \<lparr>currentBoard = b, currentDiff = d, minDiff = d, temperature = Finite 1,
               generator = g\<rparr> ch
            = Some (Inr (ch', s))"
    by (auto simp: MinDiffSA_def split: sum.splits)
  let ?s0 = "\<lparr>currentBoard = b, currentDiff = d, minDiff = d, temperature = Finite 1,
               generator = g\<rparr>"
  have t0: "SA_tracks (Objective p) [b] ?s0" using d by (simp add: SA_tracks_def)
  have sc: "SA_scored fa fuel since g b p = [b] @ SA_outer_candidates fa fuel since p 0 ?s0"
    by (simp add: SA_scored_def d)
  from SA_outer_tracks[OF r t0]
  have t: "SA_tracks (Objective p) (SA_scored fa fuel since g b p) s"
    and rep: "ch' = SA_report s ch"
    and ex: "\<not> f64_less (TemperatureMin p) (temperature s) \<or>
      (\<exists>j. 0 \<le> j \<and> j < 0 + fuel \<and> MaxTime p < since j)"
    unfolding sc by blast+
  from ex show "\<not> f64_less (TemperatureMin p) (temperature s) \<or> (\<exists>k < fuel. MaxTime p < since k)"
    by auto
  from t show cur: "currentBoard s \<in> set (SA_scored fa fuel since g b p)"
    and dc: "DiffN (currentBoard s) (Objective p) = Inr (currentDiff s)"
    and lo: "\<exists>c \<in> set (SA_scored fa fuel since g b p). DiffN c (Objective p) = Inr (minDiff s)"
    and all: "\<forall>c \<in> set (SA_scored fa fuel since g b p).
              \<exists>d. DiffN c (Objective p) = Inr d \<and> minDiff s \<le> d"
    unfolding SA_tracks_def by blast+
  from all cur dc show le: "minDiff s \<le> currentDiff s" by fastforce
  from rep show "ch' = ch @ (if minDiff s < currentDiff s then [minDiff s, currentDiff s]
                       else [currentDiff s])"
    by (simp add: SA_report_def)
qed

lemma sa_iteration_1:
  "SA_iteration arith_ex sa_params_ex
     \<lparr>currentBoard = board_a, currentDiff = 1, minDiff = 1, temperature = Finite 1,
      generator = rand_zero\<rparr> =
   Inr \<lparr>currentBoard = board_goal2, currentDiff = 0, minDiff = 0, temperature = Finite 1,
        generator = rand_zero\<lparr>calls := 1\<rparr>\<rparr>"
  by (simp add: SA_iteration_def FindNeighborRand_def neighbors_board_a Intn_def idx_def
      rand_zero_def sa_params_ex_def DiffN_goal2_goal2 AcceptCandidate_def)

lemma sa_iteration_2:
  "SA_iteration arith_ex sa_params_ex
     \<lparr>currentBoard = board_goal2, currentDiff = 0, minDiff = 0, temperature = Finite 1,
      generator = rand_zero\<lparr>calls := Suc 0\<rparr>\<rparr> =
   Inr \<lparr>currentBoard = board_a, currentDiff = 1, minDiff = 0, temperature = Finite 1,
        generator = rand_zero\<lparr>calls := 3\<rparr>\<rparr>"
  by (simp add: SA_iteration_def FindNeighborRand_def neighbors_board_goal2 Intn_def idx_def
      rand_zero_def sa_params_ex_def DiffN_a_goal2 AcceptCandidate_def Float64_def
      arith_ex_simps wrap64_def)

lemma sa_iteration_3:
  "SA_iteration arith_ex sa_params_ex
     \<lparr>currentBoard = board_goal2, currentDiff = 0, minDiff = 0, temperature = Finite 1,
      generator = rand_zero\<rparr> =
   Inr \<lparr>currentBoard = board_a, currentDiff = 1, minDiff = 0, temperature = Finite 1,
        generator = rand_zero\<lparr>calls := 2\<rparr>\<rparr>"
  by (simp add: SA_iteration_def FindNeighborRand_def neighbors_board_goal2 Intn_def idx_def
      rand_zero_def sa_params_ex_def DiffN_a_goal2 AcceptCandidate_def Float64_def
      arith_ex_simps wrap64_def)

lemma sa_iteration_4:
  "SA_iteration arith_ex sa_params_ex
     \<lparr>currentBoard = board_a, currentDiff = 1, minDiff = 0, temperature = Finite 1,
      generator = rand_zero\<lparr>calls := 2\<rparr>\<rparr> =
   Inr \<lparr>currentBoard = board_goal2, currentDiff = 0, minDiff = 0, temperature = Finite 1,
        generator = rand_zero\<lparr>calls := 3\<rparr>\<rparr>"
  by (simp add: SA_iteration_def FindNeighborRand_def neighbors_board_a Intn_def idx_def
      rand_zero_def sa_params_ex_def DiffN_goal2_goal2 AcceptCandidate_def)

lemma sa_candidates:
  "SA_candidate \<lparr>currentBoard = board_a, currentDiff = 1, minDiff = 1, temperature = Finite 1,
      generator = rand_zero\<rparr> = board_goal2"
  "SA_candidate \<lparr>currentBoard = board_goal2, currentDiff = 0, minDiff = 0,
      temperature = Finite 1, generator = rand_zero\<lparr>calls := Suc 0\<rparr>\<rparr> = board_a"
  "SA_candidate \<lparr>currentBoard = board_goal2, currentDiff = 0, minDiff = 0,
      temperature = Finite 1, generator = rand_zero\<rparr> = board_a"
  "SA_candidate \<lparr>currentBoard = board_a, currentDiff = 1, minDiff = 0, temperature = Finite 1,
      generator = rand_zero\<lparr>calls := 2\<rparr>\<rparr> = board_goal2"
  by (simp_all add: SA_candidate_def FindNeighborRand_def neighbors_board_a
      neighbors_board_goal2 Intn_def idx_def rand_zero_def)

lemma sa_inner_1:
  "SA_inner arith_ex sa_params_ex 0
     \<lparr>currentBoard = board_a, currentDiff = 1, minDiff = 1, temperature = Finite 1,
      generator = rand_zero\<rparr> =
   Inr \<lparr>currentBoard = board_a, currentDiff = 1, minDiff = 0, temperature = Finite 1,
        generator = rand_zero\<lparr>calls := 3\<rparr>\<rparr>"
  "SA_inner_candidates arith_ex sa_params_ex 0
     \<lparr>currentBoard = board_a, currentDiff = 1, minDiff = 1, temperature = Finite 1,
      generator = rand_zero\<rparr> = [board_goal2, board_a]"
  by (simp_all add: SA_inner.simps SA_inner_candidates.simps sa_params_ex_simps
      sa_iteration_1 sa_iteration_2 sa_candidates)

lemma sa_inner_2:
  "SA_inner arith_ex sa_params_ex 0
     \<lparr>currentBoard = board_goal2, currentDiff = 0, minDiff = 0, temperature = Finite 1,
      generator = rand_zero\<rparr> =
   Inr \<lparr>currentBoard = board_goal2, currentDiff = 0, minDiff = 0, temperature = Finite 1,
        generator = rand_zero\<lparr>calls := 3\<rparr>\<rparr>"
  "SA_inner_candidates arith_ex sa_params_ex 0
     \<lparr>currentBoard = board_goal2, currentDiff = 0, minDiff = 0, temperature = Finite 1,
      generator = rand_zero\<rparr> = [board_a, board_goal2]"
  by (simp_all add: SA_inner.simps SA_inner_candidates.simps sa_params_ex_simps
      sa_iteration_3 sa_iteration_4 sa_candidates)

text \<open>A run that ends because the temperature has fallen to \<open>TemperatureMin\<close>; it sends two values.\<close>

lemma sa_run:
  "MinDiffSA arith_ex 2 (\<lambda>k. 0) rand_zero board_a sa_params_ex [] =
     Some (Inr ([0, 1],
       \<lparr>currentBoard = board_a, currentDiff = 1, minDiff = 0, temperature = Finite (1 / 4),
        generator = rand_zero\<lparr>calls := 3\<rparr>\<rparr>))"
  "SA_scored arith_ex 2 (\<lambda>k. 0) rand_zero board_a sa_params_ex = [board_a, board_goal2, board_a]"
  by (simp_all add: MinDiffSA_def SA_scored_def sa_params_ex_simps DiffN_a_goal2 numeral_2_eq_2
      sa_inner_1 SA_report_def arith_ex_simps)

text \<open>A run that ends because the time budget is exceeded; it sends one value.\<close>

lemma sa_run_budget:
  "MinDiffSA arith_ex 1 (\<lambda>k. 11) rand_zero board_goal2 sa_params_ex [] =
     Some (Inr ([0],
       \<lparr>currentBoard = board_goal2, currentDiff = 0, minDiff = 0, temperature = Finite (1 / 4),
        generator = rand_zero\<lparr>calls := 3\<rparr>\<rparr>))"
  "SA_scored arith_ex 1 (\<lambda>k. 11) rand_zero board_goal2 sa_params_ex =
     [board_goal2, board_a, board_goal2]"
  by (simp_all add: MinDiffSA_def SA_scored_def sa_params_ex_simps DiffN_goal2_goal2
      sa_inner_2 SA_report_def arith_ex_simps)

theorem MinDiffSA_sends_witness:
  "MinDiffSA arith_ex 2 (\<lambda>k. 0) rand_zero board_a sa_params_ex [] =
     Some (Inr ([0, 1],
       \<lparr>currentBoard = board_a, currentDiff = 1, minDiff = 0, temperature = Finite (1 / 4),
        generator = rand_zero\<lparr>calls := 3\<rparr>\<rparr>))
   \<and> \<not> f64_less (TemperatureMin sa_params_ex) (Finite (1 / 4))
   \<and> SA_scored arith_ex 2 (\<lambda>k. 0) rand_zero board_a sa_params_ex =
       [board_a, board_goal2, board_a]
   \<and> DiffN board_a (Objective sa_params_ex) = Inr 1
   \<and> DiffN board_goal2 (Objective sa_params_ex) = Inr 0
   \<and> MaxTime sa_params_ex < (\<lambda>k. 11) (0 :: nat)
   \<and> MinDiffSA arith_ex 1 (\<lambda>k. 11) rand_zero board_goal2 sa_params_ex [] =
     Some (Inr ([0],
       \<lparr>currentBoard = board_goal2, currentDiff = 0, minDiff = 0, temperature = Finite (1 / 4),
        generator = rand_zero\<lparr>calls := 3\<rparr>\<rparr>))
   \<and> SA_scored arith_ex 1 (\<lambda>k. 11) rand_zero board_goal2 sa_params_ex =
       [board_goal2, board_a, board_goal2]"
  using MinDiffSA_sends[of 2 sa_params_ex "\<lambda>k. 0" arith_ex rand_zero board_a "[]"]
    MinDiffSA_sends[of 1 sa_params_ex "\<lambda>k. 11" arith_ex rand_zero board_goal2 "[]"]
    sa_run sa_run_budget
  by (simp add: sa_params_ex_simps DiffN_a_goal2 DiffN_goal2_goal2)

section \<open>The unchecked candidate of simulated annealing\<close>

lemma FindNeighbors_size_one:
  assumes "wf_board b" "size b = 1"
  shows "FindNeighbors b x = Inr []"
proof -
  from tileIndx_rows_wf[OF assms(1), of 0 x] assms(2)
  consider r k where "tileIndx_rows b x 0 = Inr (r, k, True)"
      "0 \<le> r" "r < 1" "0 \<le> k" "k < 1"
    | "tileIndx_rows b x 0 = Inr (- 1, - 1, False)"
    by fastforce
  then show ?thesis
  proof cases
    case 1
    then have rk: "r = 0" "k = 0" by auto
    have "FindNeighbors b x =
        Inr (map (swap_cells b (nat r, nat k)) (directions (nat (size b)) (nat r) (nat k)))"
      using 1 assms by (intro FindNeighbors_at) (auto simp: tileIndx_def)
    then show ?thesis using rk assms(2) by (simp add: directions_def)
  next
    case 2
    then show ?thesis by (simp add: FindNeighbors_def tileIndx_def)
  qed
qed

lemma FindNeighborRand_none:
  assumes "FindNeighbors b x = Inr []"
  shows "FindNeighborRand g b x = Inr (None, g)"
  using assms by (simp add: FindNeighborRand_def)

lemma FindNeighborRand_valid:
  assumes "valid_board b" "2 \<le> size b"
  shows "\<exists>c g'. FindNeighborRand g b 0 = Inr (Some c, g') \<and> valid_board c \<and> size c = size b"
proof -
  let ?n = "nat (size b)"
  have wf: "wf_board b" using assms(1) unfolding valid_board_def by blast
  have "0 < size b * size b" using assms(2) by simp
  with valid_board_has[OF assms(1), of 0]
  obtain i j where ij: "i < ?n" "j < ?n" "state b ! i ! j = 0" by auto
  let ?ds = "directions ?n i j"
  let ?ns = "map (swap_cells b (i, j)) ?ds"
  have ns: "FindNeighbors b 0 = Inr ?ns"
    using FindNeighbors_valid[OF assms(1) ij(1,2)] ij(3) by simp
  have len: "2 \<le> length ?ds"
    using length_directions[of ?n i j] ij assms(2) by (auto split: if_splits)
  let ?k = "ints g (calls g) mod length ?ns"
  have pos: "0 < length ?ds" using len by linarith
  then have ne: "?ds \<noteq> []" by simp
  from pos have k: "?k < length ?ds" by simp
  have intn: "Intn g (int (length ?ns)) = Inr (int ?k, g\<lparr>calls := calls g + 1\<rparr>)"
    using ne by (simp add: Intn_def)
  have at: "idx ?ns (int ?k) = Inr (?ns ! ?k)" using k by (simp add: idx_def)
  have res: "FindNeighborRand g b 0 = Inr (Some (?ns ! ?k), g\<lparr>calls := calls g + 1\<rparr>)"
    using ne unfolding FindNeighborRand_def ns by (simp add: intn at del: length_map)
  have q: "?ds ! ?k \<in> set ?ds" using k by simp
  obtain i' j' where qq: "?ds ! ?k = (i', j')" by (cases "?ds ! ?k")
  have r: "i' < ?n" "j' < ?n" using directions_range[OF q ij(1,2)] qq by auto
  have c: "?ns ! ?k = swap_cells b (i, j) (i', j')" using k qq by simp
  have "valid_board (?ns ! ?k)" unfolding c using assms(1) ij r by (intro valid_swap_cells)
  moreover have "size (?ns ! ?k) = size b" unfolding c by (rule swap_cells_wf(2)[OF wf])
  ultimately show ?thesis using res by blast
qed

lemma SA_iteration_valid:
  assumes "valid_board (currentBoard s)" "2 \<le> size (currentBoard s)"
    "wf_board (Objective p)" "size (Objective p) = size (currentBoard s)"
  shows "\<exists>s'. SA_iteration fa p s = Inr s' \<and> valid_board (currentBoard s') \<and>
           size (currentBoard s') = size (currentBoard s)"
proof -
  from FindNeighborRand_valid[OF assms(1,2), of "generator s"]
  obtain c g1 where f: "FindNeighborRand (generator s) (currentBoard s) 0 = Inr (Some c, g1)"
    and vc: "valid_board c" and sc: "size c = size (currentBoard s)" by blast
  obtain d where d: "DiffN c (Objective p) = Inr d"
    using DiffN_count[OF valid_board_wf[OF vc] assms(3)] sc assms(4) by simp
  obtain accept g2 where
    acc: "AcceptCandidate fa g1 (currentDiff s) d (temperature s) = (accept, g2)"
    by (cases "AcceptCandidate fa g1 (currentDiff s) d (temperature s)")
  show ?thesis
    using assms(1) vc sc by (cases accept) (simp_all add: SA_iteration_def f d acc Let_def)
qed

lemma SA_inner_valid:
  "valid_board (currentBoard s) \<Longrightarrow> 2 \<le> size (currentBoard s) \<Longrightarrow>
   wf_board (Objective p) \<Longrightarrow> size (Objective p) = size (currentBoard s) \<Longrightarrow>
     \<exists>s'. SA_inner fa p i s = Inr s' \<and> valid_board (currentBoard s') \<and>
          size (currentBoard s') = size (currentBoard s)"
proof (induction fa p i s rule: SA_inner.induct)
  case (1 fa p i s)
  show ?case
  proof (cases "i < Iterations p")
    case False
    with "1.prems" show ?thesis by (subst SA_inner.simps) simp
  next
    case True
    from SA_iteration_valid[OF "1.prems"]
    obtain s1 where s1: "SA_iteration fa p s = Inr s1" "valid_board (currentBoard s1)"
      "size (currentBoard s1) = size (currentBoard s)" by blast
    have "\<exists>s'. SA_inner fa p (i + 1) s1 = Inr s' \<and> valid_board (currentBoard s') \<and>
          size (currentBoard s') = size (currentBoard s1)"
      by (rule "1.IH"[OF True]) (use s1 "1.prems" in auto)
    then show ?thesis using True s1 by (subst SA_inner.simps) auto
  qed
qed

lemma SA_outer_no_fault:
  "valid_board (currentBoard s) \<Longrightarrow> 2 \<le> size (currentBoard s) \<Longrightarrow>
   wf_board (Objective p) \<Longrightarrow> size (Objective p) = size (currentBoard s) \<Longrightarrow>
     SA_outer fa fuel since p k s ch \<noteq> Some (Inl e)"
proof (induction fuel arbitrary: k s)
  case 0
  then show ?case by simp
next
  case (Suc fuel)
  from SA_inner_valid[OF Suc.prems, of fa 0]
  obtain s1 where s1: "SA_inner fa p 0 s = Inr s1" "valid_board (currentBoard s1)"
    "size (currentBoard s1) = size (currentBoard s)" by blast
  let ?s2 = "s1\<lparr>temperature := f64_mul fa (temperature s1) (Alpha p)\<rparr>"
  have "SA_outer fa fuel since p (k + 1) ?s2 ch \<noteq> Some (Inl e)"
    using s1 Suc.prems by (intro Suc.IH) auto
  then show ?case using s1(1) by (simp add: Let_def)
qed

text \<open>
  C9. \<open>MinDiffSA\<close> scores the board that \<open>FindNeighborRand\<close> returns without a nil check.
  On a valid board of size at least 2 the result is never nil, and the search never
  faults, however long it runs. On a board of size 1, or one without the blank,
  \<open>FindNeighborRand\<close> returns nil, and \<open>MinDiffSA\<close> faults on it as soon as the inner loop
  runs once.
\<close>

theorem FindNeighborRand_nil:
  "(valid_board b \<and> 2 \<le> size b \<longrightarrow>
      (\<exists>c g'. FindNeighborRand g b 0 = Inr (Some c, g')) \<and>
      (wf_board (Objective p) \<and> size (Objective p) = size b \<longrightarrow>
         MinDiffSA fa fuel since g b p ch \<noteq> Some (Inl e)))
   \<and> (wf_board b \<and> (size b = 1 \<or> 0 \<notin> set (concat (state b))) \<longrightarrow>
        FindNeighborRand g b 0 = Inr (None, g) \<and>
        (wf_board (Objective p) \<and> size (Objective p) = size b \<and>
         f64_less (TemperatureMin p) (Finite 1) \<and> 0 < Iterations p \<longrightarrow>
           MinDiffSA fa (Suc fuel) since g b p ch = Some (Inl NilDereference)))"
proof (intro conjI impI)
  assume a: "valid_board b \<and> 2 \<le> size b"
  then show "\<exists>c g'. FindNeighborRand g b 0 = Inr (Some c, g')"
    using FindNeighborRand_valid[of b g] by blast
  assume o: "wf_board (Objective p) \<and> size (Objective p) = size b"
  then obtain d where d: "DiffN b (Objective p) = Inr d"
    using DiffN_count[OF valid_board_wf, of b "Objective p"] a by simp
  show "MinDiffSA fa fuel since g b p ch \<noteq> Some (Inl e)"
    unfolding MinDiffSA_def d using a o by (simp add: SA_outer_no_fault)
next
  assume a: "wf_board b \<and> (size b = 1 \<or> 0 \<notin> set (concat (state b)))"
  then have ns: "FindNeighbors b 0 = Inr []"
    using FindNeighbors_size_one[of b 0] FindNeighbors_absent[of b 0] by blast
  then show none: "FindNeighborRand g b 0 = Inr (None, g)" by (rule FindNeighborRand_none)
  assume o: "wf_board (Objective p) \<and> size (Objective p) = size b \<and>
         f64_less (TemperatureMin p) (Finite 1) \<and> 0 < Iterations p"
  then obtain d where d: "DiffN b (Objective p) = Inr d"
    using DiffN_count[of b "Objective p"] a by simp
  let ?s = "\<lparr>currentBoard = b, currentDiff = d, minDiff = d, temperature = Finite 1, generator = g\<rparr>"
  have "SA_iteration fa p ?s = Inl NilDereference"
    by (simp add: SA_iteration_def none)
  then have "SA_inner fa p 0 ?s = Inl NilDereference"
    using o by (subst SA_inner.simps) simp
  then show "MinDiffSA fa (Suc fuel) since g b p ch = Some (Inl NilDereference)"
    unfolding MinDiffSA_def d using o by simp
qed

theorem FindNeighborRand_nil_witness:
  "valid_board board_a \<and> 2 \<le> size board_a
   \<and> FindNeighborRand rand_zero board_a 0 = Inr (Some board_goal2, rand_zero\<lparr>calls := 1\<rparr>)
   \<and> wf_board (Objective sa_params_ex) \<and> size (Objective sa_params_ex) = size board_a
   \<and> MinDiffSA arith_ex 2 (\<lambda>k. 0) rand_zero board_a sa_params_ex [] \<noteq> Some (Inl NilDereference)
   \<and> wf_board board_one \<and> size board_one = 1
   \<and> FindNeighborRand rand_zero board_one 0 = Inr (None, rand_zero)
   \<and> wf_board (Objective sa_params_one) \<and> size (Objective sa_params_one) = size board_one
   \<and> f64_less (TemperatureMin sa_params_one) (Finite 1) \<and> 0 < Iterations sa_params_one
   \<and> MinDiffSA arith_ex (Suc 0) (\<lambda>k. 0) rand_zero board_one sa_params_one [] = Some (Inl NilDereference)"
proof -
  have a: "valid_board board_a \<and> 2 \<le> size board_a"
    using valid_board_a by (simp add: board_a_def)
  have oa: "wf_board (Objective sa_params_ex) \<and> size (Objective sa_params_ex) = size board_a"
    by (simp add: sa_params_ex_def wf_board_def board_goal2_def board_a_def)
  have f: "FindNeighborRand rand_zero board_a 0 = Inr (Some board_goal2, rand_zero\<lparr>calls := 1\<rparr>)"
    by (simp add: FindNeighborRand_def neighbors_board_a Intn_def idx_def rand_zero_def)
  have one: "wf_board board_one \<and> (size board_one = 1 \<or> 0 \<notin> set (concat (state board_one)))"
    by (simp add: wf_board_def board_one_def)
  have oo: "wf_board (Objective sa_params_one) \<and> size (Objective sa_params_one) = size board_one
      \<and> f64_less (TemperatureMin sa_params_one) (Finite 1) \<and> 0 < Iterations sa_params_one"
    by (simp add: sa_params_one_def wf_board_def board_one_def)
  from FindNeighborRand_nil[where fa = arith_ex and b = board_a and g = rand_zero and p = sa_params_ex
      and fuel = 2 and since = "\<lambda>k. 0" and ch = "[]" and e = NilDereference] a oa
  have 1: "MinDiffSA arith_ex 2 (\<lambda>k. 0) rand_zero board_a sa_params_ex [] \<noteq> Some (Inl NilDereference)"
    by blast
  from FindNeighborRand_nil[where fa = arith_ex and b = board_one and g = rand_zero and p = sa_params_one
      and fuel = 0 and since = "\<lambda>k. 0" and ch = "[]" and e = NilDereference] one oo
  have 2: "FindNeighborRand rand_zero board_one 0 = Inr (None, rand_zero)"
    "MinDiffSA arith_ex (Suc 0) (\<lambda>k. 0) rand_zero board_one sa_params_one [] = Some (Inl NilDereference)"
    by blast+
  from a oa f 1 one oo 2 show ?thesis by (simp add: board_one_def)
qed

section \<open>Random start boards\<close>

declare NewBoardRand_rows.simps [simp del]

lemma wrap64_id: "- (2 ^ 63) \<le> x \<Longrightarrow> x < 2 ^ 63 \<Longrightarrow> wrap64 x = x"
  by (simp add: wrap64_def)

lemma wrap64_high:
  assumes "2 ^ 63 \<le> x" "x < 2 ^ 64"
  shows "wrap64 x = x - 2 ^ 64"
proof -
  have "(x + 2 ^ 63 - 2 ^ 64) mod 2 ^ 64 = (x + 2 ^ 63) mod (2 ^ 64 :: int)"
    by (rule minus_mod_self2)
  moreover have "(x + 2 ^ 63 - 2 ^ 64) mod 2 ^ 64 = x + 2 ^ 63 - (2 ^ 64 :: int)"
    using assms by (intro mod_pos_pos_trivial) simp_all
  ultimately show ?thesis by (simp add: wrap64_def)
qed

lemma chunk_bound:
  assumes "0 \<le> i" "i < n"
  shows "(i * n) + n \<le> n * (n::int)"
proof -
  have "(i * n) + n = (i + 1) * n" by (simp add: algebra_simps)
  also have "\<dots> \<le> n * n" using assms by (intro mult_right_mono) auto
  finally show ?thesis .
qed

lemma NewBoardRand_rows_wf:
  "0 \<le> n \<Longrightarrow> n * n < 2 ^ 63 \<Longrightarrow> int (length pieces) = n * n \<Longrightarrow> length st = nat n \<Longrightarrow>
   0 \<le> i \<Longrightarrow> i \<le> n \<Longrightarrow>
     NewBoardRand_rows n pieces i st =
       Inr (take (nat i) st @
            map (\<lambda>r. take (nat n) (drop (r * nat n) pieces)) [nat i..<nat n])"
proof (induction n pieces i st rule: NewBoardRand_rows.induct)
  case (1 n pieces i st)
  show ?case
  proof (cases "i < n")
    case False
    with "1.prems" show ?thesis by (subst NewBoardRand_rows.simps) simp
  next
    case True
    let ?row = "take (nat n) (drop (nat i * nat n) pieces)"
    have b: "(i * n) + n \<le> n * n" using chunk_bound[of i n] True "1.prems" by simp
    have lo: "0 \<le> i * n" using "1.prems" by simp
    have w1: "wrap64 (i * n) = i * n" using lo b "1.prems" by (intro wrap64_id) linarith+
    have w2: "wrap64 (i * n + n) = i * n + n" using lo b "1.prems" by (intro wrap64_id) linarith+
    have "slice pieces (i * n) ((i * n) + n) = Inr (take (nat n) (drop (nat (i * n)) pieces))"
      using b lo "1.prems" by (simp add: slice_def)
    also have "nat (i * n) = nat i * nat n" using "1.prems" by (simp add: nat_mult_distrib)
    finally have sl: "slice pieces (wrap64 (i * n)) (wrap64 (wrap64 (i * n) + n)) = Inr ?row"
      by (simp only: w1 w2)
    have st: "set_at st i ?row = Inr (st[nat i := ?row])"
      using True "1.prems" by (simp add: set_at_def)
    have step: "NewBoardRand_rows n pieces i st = NewBoardRand_rows n pieces (i + 1) (st[nat i := ?row])"
      using True sl st by (subst NewBoardRand_rows.simps) simp
    have "NewBoardRand_rows n pieces (i + 1) (st[nat i := ?row]) =
       Inr (take (nat (i + 1)) (st[nat i := ?row]) @
            map (\<lambda>r. take (nat n) (drop (r * nat n) pieces)) [nat (i + 1)..<nat n])"
      by (rule "1.IH"[OF True]) (use "1.prems" True in auto)
    also have "nat (i + 1) = Suc (nat i)" using "1.prems" by simp
    also have "take (Suc (nat i)) (st[nat i := ?row]) = take (nat i) st @ [?row]"
      using True "1.prems" by (simp add: take_Suc_conv_app_nth)
    finally have "NewBoardRand_rows n pieces i st =
       Inr (take (nat i) st @ ?row #
            map (\<lambda>r. take (nat n) (drop (r * nat n) pieces)) [Suc (nat i)..<nat n])"
      using step by simp
    moreover have "[nat i..<nat n] = nat i # [Suc (nat i)..<nat n]"
      using True "1.prems" by (simp add: upt_conv_Cons)
    ultimately show ?thesis by simp
  qed
qed

text \<open>A run of the loop that succeeds has taken every slice.\<close>

lemma NewBoardRand_rows_slices:
  "NewBoardRand_rows n pieces i st = Inr st' \<Longrightarrow> i \<le> k \<Longrightarrow> k < n \<Longrightarrow>
     \<exists>row. slice pieces (wrap64 (k * n)) (wrap64 (wrap64 (k * n) + n)) = Inr row"
proof (induction n pieces i st rule: NewBoardRand_rows.induct)
  case (1 n pieces i st)
  from "1.prems" have True: "i < n" by simp
  from "1.prems"(1) True obtain row st1 where
    sl: "slice pieces (wrap64 (i * n)) (wrap64 (wrap64 (i * n) + n)) = Inr row"
    and r: "NewBoardRand_rows n pieces (i + 1) st1 = Inr st'"
    by (subst (asm) NewBoardRand_rows.simps) (auto simp: bindE_eq_Inr)
  show ?case
  proof (cases "k = i")
    case True
    with sl show ?thesis by blast
  next
    case False
    with "1.prems" have "i + 1 \<le> k" by simp
    show ?thesis
      by (rule "1.IH"[OF True]) (use r \<open>i + 1 \<le> k\<close> "1.prems" in auto)
  qed
qed

text \<open>
  When \<open>n * n\<close> has wrapped around, the permutation is too short: the slice of the row
  \<open>m div n\<close>, at the latest, is out of range.
\<close>

lemma NewBoardRand_rows_overflow:
  assumes "0 < n" "n < 2 ^ 63" "2 ^ 63 \<le> n * n" "0 \<le> m" "m < 2 ^ 63"
    "int (length pieces) = m"
  shows "NewBoardRand_rows n pieces 0 st \<noteq> Inr st'"
proof
  assume r: "NewBoardRand_rows n pieces 0 st = Inr st'"
  let ?k = "m div n"
  have k0: "0 \<le> ?k" using assms(1,4) by (simp add: pos_imp_zdiv_nonneg_iff)
  have dm: "m = ?k * n + m mod n" by simp
  have md: "0 \<le> m mod n" "m mod n < n" using assms(1) by simp_all
  have lo: "?k * n \<le> m" using dm md by linarith
  have hi: "m < ?k * n + n" using dm md by linarith
  have kn: "?k < n"
  proof (rule ccontr)
    assume "\<not> ?k < n"
    then have "n \<le> ?k" by simp
    then have "n * n \<le> ?k * n" using assms(1) by (intro mult_right_mono) simp_all
    with lo assms(3,5) show False by linarith
  qed
  from NewBoardRand_rows_slices[OF r k0 kn] obtain row where
    "slice pieces (wrap64 (?k * n)) (wrap64 (wrap64 (?k * n) + n)) = Inr row" by blast
  then have s: "wrap64 (?k * n) \<le> wrap64 (wrap64 (?k * n) + n)"
    "wrap64 (wrap64 (?k * n) + n) \<le> m"
    using assms(6) by (auto simp: slice_def split: if_splits)
  have kn0: "0 \<le> ?k * n" using k0 assms(1) by simp
  have w1: "wrap64 (?k * n) = ?k * n"
    using kn0 lo assms(5) by (intro wrap64_id) linarith+
  show False
  proof (cases "?k * n + n < 2 ^ 63")
    case True
    have "wrap64 (?k * n + n) = ?k * n + n"
      using True kn0 assms(1) by (intro wrap64_id) linarith+
    with s(2) hi show False unfolding w1 by linarith
  next
    case False
    have p: "(2::int) ^ 64 = 2 ^ 63 + 2 ^ 63" by simp
    have "?k * n + n < 2 ^ 64" using lo assms(2,5) unfolding p by linarith
    with False have "wrap64 (?k * n + n) = ?k * n + n - 2 ^ 64"
      by (intro wrap64_high) linarith+
    with s(1) kn0 \<open>?k * n + n < 2 ^ 64\<close> show False unfolding w1 by linarith
  qed
qed

lemma concat_chunks:
  "m * n \<le> length xs \<Longrightarrow>
     concat (map (\<lambda>r. take n (drop (r * n) xs)) [0..<m]) = take (m * n) xs"
proof (induction m)
  case 0
  then show ?case by simp
next
  case (Suc m)
  let ?f = "\<lambda>r. take n (drop (r * n) xs)"
  from Suc have IH: "concat (map ?f [0..<m]) = take (m * n) xs" by simp
  have "concat (map ?f [0..<Suc m]) = concat (map ?f [0..<m]) @ ?f m" by simp
  also have "\<dots> = take (m * n) xs @ take n (drop (m * n) xs)" by (simp only: IH)
  also have "\<dots> = take (m * n + n) xs" by (simp only: take_add)
  also have "m * n + n = Suc m * n" by simp
  finally show ?case .
qed

lemma Perm_served:
  "Perm rt g m = (if m < 0 \<or> \<not> serves_ints rt m then Inl MakeSliceLen
                  else Inr (perms g (calls g), g\<lparr>calls := calls g + 1\<rparr>))"
  by (simp add: Perm_def make_sized_def)

lemma NewBoardRand_ok:
  assumes "0 \<le> n" "serves_rows rt n" "n * n < 2 ^ 63" "serves_ints rt (n * n)"
    "mset (perms g (calls g)) = mset [0..n * n - 1]"
  shows "\<exists>b. NewBoardRand rt g n = Inr (b, g\<lparr>calls := calls g + 1\<rparr>) \<and> size b = n \<and>
           wf_board b \<and> concat (state b) = perms g (calls g) \<and> (0 < n \<longrightarrow> valid_board b) \<and>
           (n = 0 \<longrightarrow> state b = [])"
proof -
  let ?pieces = "perms g (calls g)"
  let ?rows = "map (\<lambda>r. take (nat n) (drop (r * nat n) ?pieces)) [0..<nat n]"
  let ?b = "\<lparr>size = n, state = ?rows\<rparr>"
  have nn: "0 \<le> n * n" using assms(1) by simp
  have w: "wrap64 (n * n) = n * n" using nn assms(3) by (intro wrap64_id) linarith+
  have "length ?pieces = length [0..n * n - 1]"
    using assms(5) by (rule mset_eq_length)
  then have len: "int (length ?pieces) = n * n" using assms(1) by simp
  then have len': "length ?pieces = nat n * nat n"
    using assms(1) by (metis nat_int nat_mult_distrib)
  have rows: "NewBoardRand_rows n ?pieces 0 (replicate (nat n) []) = Inr ?rows"
    using NewBoardRand_rows_wf[OF assms(1,3) len, of "replicate (nat n) []" 0] assms(1) by simp
  have run: "NewBoardRand rt g n = Inr (?b, g\<lparr>calls := calls g + 1\<rparr>)"
    using assms(1,2,4) nn rows by (simp add: NewBoardRand_def make_sized_def Perm_served w)
  have rowlen: "\<And>r. r < nat n \<Longrightarrow> length (take (nat n) (drop (r * nat n) ?pieces)) = nat n"
  proof -
    fix r assume r: "r < nat n"
    have "r * nat n + nat n = Suc r * nat n" by simp
    also have "\<dots> \<le> nat n * nat n" using r by (intro mult_le_mono1) simp
    finally have "nat n \<le> nat n * nat n - r * nat n" by linarith
    then show "length (take (nat n) (drop (r * nat n) ?pieces)) = nat n"
      using len' by simp
  qed
  have wf: "wf_board ?b"
    using assms(1) rowlen by (auto simp: wf_board_def list_all_iff)
  have flat: "concat (state ?b) = ?pieces"
    using concat_chunks[of "nat n" "nat n" ?pieces] len' by simp
  have "sort (concat (state ?b)) = [0..n * n - 1]"
    unfolding flat using assms(5) by (intro properties_for_sort) simp_all
  then have "0 < n \<longrightarrow> valid_board ?b" using wf by (simp add: valid_board_def)
  with run wf flat show ?thesis by (intro exI[of _ ?b]) simp
qed

lemma NewBoardRand_needs:
  assumes "NewBoardRand rt g n = Inr (b, g')" "n < 2 ^ 63"
    "int (length (perms g (calls g))) = wrap64 (n * n)"
  shows "0 \<le> n \<and> serves_rows rt n \<and> n * n < 2 ^ 63 \<and> serves_ints rt (n * n)"
proof -
  let ?m = "wrap64 (n * n)"
  from assms(1) obtain st0 x where mk: "make_sized (serves_rows rt) [] n = Inr st0"
    and pm: "Perm rt g ?m = Inr x"
    and r0: "(case x of (pieces, g') \<Rightarrow>
               bindE (NewBoardRand_rows n pieces 0 st0) (\<lambda>st.
                 Inr (\<lparr>size = n, state = st\<rparr>, g'))) = Inr (b, g')"
    unfolding NewBoardRand_def bindE_eq_Inr by blast
  from mk have n0: "0 \<le> n" and sr: "serves_rows rt n"
    by (auto simp: make_sized_def split: if_splits)
  from pm have m0: "0 \<le> ?m" and si: "serves_ints rt ?m"
    and x: "x = (perms g (calls g), g\<lparr>calls := calls g + 1\<rparr>)"
    by (auto simp: Perm_served split: if_splits)
  from r0 x obtain st where rows: "NewBoardRand_rows n (perms g (calls g)) 0 st0 = Inr st"
    by (auto simp: bindE_eq_Inr)
  have m1: "?m < 2 ^ 63" by (simp add: wrap64_def)
  have small: "n * n < 2 ^ 63"
  proof (rule ccontr)
    assume "\<not> n * n < 2 ^ 63"
    then have big: "2 ^ 63 \<le> n * n" by simp
    then have "n \<noteq> 0" by auto
    with n0 have "0 < n" by simp
    from NewBoardRand_rows_overflow[OF this assms(2) big m0 m1 assms(3)] rows
    show False by blast
  qed
  have "0 \<le> n * n" using n0 by simp
  then have "?m = n * n" using small by (intro wrap64_id) linarith+
  with n0 sr small si show ?thesis by simp
qed

text \<open>Every valid board is the layout of one permutation, the one that lists its rows.\<close>

lemma NewBoardRand_onto:
  assumes "valid_board c" "serves_rows rt (size c)" "size c * size c < 2 ^ 63"
    "serves_ints rt (size c * size c)"
  shows "NewBoardRand rt (g\<lparr>perms := \<lambda>k. concat (state c)\<rparr>) (size c) =
           Inr (c, g\<lparr>perms := \<lambda>k. concat (state c), calls := calls g + 1\<rparr>)"
proof -
  let ?g = "g\<lparr>perms := \<lambda>k. concat (state c)\<rparr>"
  have wf: "wf_board c" using assms(1) by (rule valid_board_wf)
  have n0: "0 \<le> size c" using assms(1) by (simp add: valid_board_def)
  have ms: "mset (perms ?g (calls ?g)) = mset [0..size c * size c - 1]"
    using valid_board_mset[OF assms(1)] by simp
  from NewBoardRand_ok[OF n0 assms(2,3,4) ms]
  obtain b where run: "NewBoardRand rt ?g (size c) = Inr (b, ?g\<lparr>calls := calls ?g + 1\<rparr>)"
    and sz: "size b = size c" and wfb: "wf_board b"
    and flat: "concat (state b) = concat (state c)" by auto
  have len: "length (state b) = length (state c)"
    using wf_board_length(1)[OF wf] wf_board_length(1)[OF wfb] sz by simp
  have rows: "\<forall>(x, y) \<in> set (zip (state b) (state c)). length x = length y"
  proof (clarify)
    fix x y assume "(x, y) \<in> set (zip (state b) (state c))"
    then have "x \<in> set (state b)" "y \<in> set (state c)" by (auto dest: set_zip_leftD set_zip_rightD)
    with wf_board_rows[OF wf] wf_board_rows[OF wfb] sz show "length x = length y" by simp
  qed
  have "state b = state c" using flat concat_eq_concat_iff[OF rows len] by simp
  with sz have "b = c" by simp
  with run show ?thesis by simp
qed

text \<open>
  C8 (amended). \<open>NewBoardRand\<close> lays the permutation that \<open>rand.Perm\<close> draws out over the
  grid row by row. For a size \<open>n\<close> of type \<open>int\<close> it succeeds exactly when \<open>n \<ge> 0\<close>, the
  run-time system serves the \<open>n\<close> row headers and the \<open>n * n\<close> numbers, and \<open>n * n\<close> does not
  overflow. So it fails for every negative size, succeeds for size 0 when the two empty
  slices are served, and does not succeed for every positive size. When it succeeds the
  board has size \<open>n\<close> and its rows, one after the other, are the permutation; it is the
  empty board for \<open>n = 0\<close> and a valid board for \<open>n > 0\<close>. Every valid board of size \<open>n\<close> is
  the result for exactly one permutation, the list of its rows, so a permutation drawn
  uniformly gives a board drawn uniformly.
\<close>

theorem NewBoardRand_permutation:
  assumes "- (2 ^ 63) \<le> n" and "n < 2 ^ 63"
    and "sort (perms g (calls g)) = [0..wrap64 (n * n) - 1]"
  shows "((\<exists>b g'. NewBoardRand rt g n = Inr (b, g')) \<longleftrightarrow>
            0 \<le> n \<and> serves_rows rt n \<and> n * n < 2 ^ 63 \<and> serves_ints rt (n * n))
       \<and> (\<forall>b g'. NewBoardRand rt g n = Inr (b, g') \<longrightarrow>
            g' = g\<lparr>calls := calls g + 1\<rparr> \<and> size b = n \<and> wf_board b \<and>
            concat (state b) = perms g (calls g) \<and> (0 < n \<longrightarrow> valid_board b) \<and>
            (n = 0 \<longrightarrow> state b = []))
       \<and> (\<forall>c. valid_board c \<and> size c = n \<and> serves_rows rt n \<and> n * n < 2 ^ 63 \<and>
              serves_ints rt (n * n) \<longrightarrow>
            NewBoardRand rt (g\<lparr>perms := \<lambda>k. concat (state c)\<rparr>) n =
              Inr (c, g\<lparr>perms := \<lambda>k. concat (state c), calls := calls g + 1\<rparr>))"
proof -
  let ?m = "wrap64 (n * n)"
  have "length (sort (perms g (calls g))) = length [0..?m - 1]" by (simp only: assms(3))
  then have len: "0 \<le> ?m \<Longrightarrow> int (length (perms g (calls g))) = ?m" by simp
  have needs: "0 \<le> n \<and> serves_rows rt n \<and> n * n < 2 ^ 63 \<and> serves_ints rt (n * n)"
    if run: "NewBoardRand rt g n = Inr (b, g')" for b g'
  proof -
    from run obtain x where "Perm rt g ?m = Inr x"
      unfolding NewBoardRand_def bindE_eq_Inr by blast
    then have "0 \<le> ?m" by (auto simp: Perm_served split: if_splits)
    from NewBoardRand_needs[OF run assms(2) len[OF this]] show ?thesis .
  qed
  have ok: "\<exists>b. NewBoardRand rt g n = Inr (b, g\<lparr>calls := calls g + 1\<rparr>) \<and> size b = n \<and>
           wf_board b \<and> concat (state b) = perms g (calls g) \<and> (0 < n \<longrightarrow> valid_board b) \<and>
           (n = 0 \<longrightarrow> state b = [])"
    if c: "0 \<le> n \<and> serves_rows rt n \<and> n * n < 2 ^ 63 \<and> serves_ints rt (n * n)"
  proof -
    have "0 \<le> n * n" using c by simp
    then have w: "?m = n * n" using c by (intro wrap64_id) linarith+
    have "mset (sort (perms g (calls g))) = mset [0..n * n - 1]"
      using assms(3) unfolding w by simp
    then have "mset (perms g (calls g)) = mset [0..n * n - 1]" by simp
    with c show ?thesis by (intro NewBoardRand_ok) simp_all
  qed
  have 1: "(\<exists>b g'. NewBoardRand rt g n = Inr (b, g')) \<longleftrightarrow>
            0 \<le> n \<and> serves_rows rt n \<and> n * n < 2 ^ 63 \<and> serves_ints rt (n * n)"
    using needs ok by blast
  have 2: "\<forall>b g'. NewBoardRand rt g n = Inr (b, g') \<longrightarrow>
            g' = g\<lparr>calls := calls g + 1\<rparr> \<and> size b = n \<and> wf_board b \<and>
            concat (state b) = perms g (calls g) \<and> (0 < n \<longrightarrow> valid_board b) \<and>
            (n = 0 \<longrightarrow> state b = [])"
  proof (intro allI impI)
    fix b g' assume run: "NewBoardRand rt g n = Inr (b, g')"
    from ok[OF needs[OF run]] run
    show "g' = g\<lparr>calls := calls g + 1\<rparr> \<and> size b = n \<and> wf_board b \<and>
            concat (state b) = perms g (calls g) \<and> (0 < n \<longrightarrow> valid_board b) \<and>
            (n = 0 \<longrightarrow> state b = [])" by auto
  qed
  have 3: "\<forall>c. valid_board c \<and> size c = n \<and> serves_rows rt n \<and> n * n < 2 ^ 63 \<and>
              serves_ints rt (n * n) \<longrightarrow>
            NewBoardRand rt (g\<lparr>perms := \<lambda>k. concat (state c)\<rparr>) n =
              Inr (c, g\<lparr>perms := \<lambda>k. concat (state c), calls := calls g + 1\<rparr>)"
    using NewBoardRand_onto by blast
  from 1 2 3 show ?thesis by blast
qed

lemma NewBoardRand_ex:
  "NewBoardRand runtime_ex rand_perm_ex 2 = Inr (board_a, rand_perm_ex\<lparr>calls := 1\<rparr>)"
  by (simp add: NewBoardRand_def make_sized_def Perm_served runtime_ex_def rand_perm_ex_def
      NewBoardRand_rows.simps slice_def set_at_def board_a_def eval_nat_numeral wrap64_def)

lemma NewBoardRand_rows_empty:
  "0 < n \<Longrightarrow> n < 2 ^ 63 \<Longrightarrow> NewBoardRand_rows n [] 0 st = Inl IndexOutOfRange"
  by (subst NewBoardRand_rows.simps) (simp add: slice_def wrap64_id)

theorem NewBoardRand_permutation_witness:
  "- (2 ^ 63) \<le> (2 :: int) \<and> (2 :: int) < 2 ^ 63
   \<and> sort (perms rand_perm_ex (calls rand_perm_ex)) = [0..wrap64 (2 * 2) - 1]
   \<and> serves_rows runtime_ex 2 \<and> (2 :: int) * 2 < 2 ^ 63 \<and> serves_ints runtime_ex (2 * 2)
   \<and> NewBoardRand runtime_ex rand_perm_ex 2 = Inr (board_a, rand_perm_ex\<lparr>calls := 1\<rparr>)
   \<and> valid_board board_a \<and> concat (state board_a) = perms rand_perm_ex (calls rand_perm_ex)
   \<and> valid_board board_goal2 \<and> size board_goal2 = 2
   \<and> NewBoardRand runtime_ex (rand_perm_ex\<lparr>perms := \<lambda>k. concat (state board_goal2)\<rparr>) 2 =
       Inr (board_goal2, rand_perm_ex\<lparr>perms := \<lambda>k. concat (state board_goal2), calls := 1\<rparr>)
   \<and> sort (perms rand_zero (calls rand_zero)) = [0..wrap64 (4294967296 * 4294967296) - 1]
   \<and> serves_rows runtime_ex 4294967296
   \<and> (\<forall>b g'. NewBoardRand runtime_ex rand_zero 4294967296 \<noteq> Inr (b, g'))
   \<and> sort (perms rand_perm_ex (calls rand_perm_ex)) = [0..wrap64 (- 2 * - 2) - 1]
   \<and> (\<forall>b g'. NewBoardRand runtime_ex rand_perm_ex (- 2) \<noteq> Inr (b, g'))"
proof -
  have s: "sort (perms rand_perm_ex (calls rand_perm_ex)) = [0..wrap64 (2 * 2) - 1]"
    "sort (perms rand_perm_ex (calls rand_perm_ex)) = [0..wrap64 (- 2 * - 2) - 1]"
    by (simp_all add: rand_perm_ex_def wrap64_def upto_rec1)
  have z: "sort (perms rand_zero (calls rand_zero)) = [0..wrap64 (4294967296 * 4294967296) - 1]"
    by (simp add: rand_zero_def wrap64_def)
  have rt: "serves_rows runtime_ex 2" "serves_ints runtime_ex (2 * 2)"
    "serves_rows runtime_ex 4294967296"
    by (simp_all add: runtime_ex_def)
  have g: "valid_board board_goal2 \<and> size board_goal2 = 2"
    using valid_board_goal2 by (simp add: board_goal2_def)
  note t2 = NewBoardRand_permutation[of 2 rand_perm_ex runtime_ex, OF _ _ s(1)]
  have a: "valid_board board_a \<and> concat (state board_a) = perms rand_perm_ex (calls rand_perm_ex)"
    using t2 NewBoardRand_ex by auto
  have b: "NewBoardRand runtime_ex (rand_perm_ex\<lparr>perms := \<lambda>k. concat (state board_goal2)\<rparr>) 2 =
       Inr (board_goal2, rand_perm_ex\<lparr>perms := \<lambda>k. concat (state board_goal2), calls := 1\<rparr>)"
    using t2 g rt by (simp add: rand_perm_ex_def)
  have c: "\<forall>b g'. NewBoardRand runtime_ex rand_zero 4294967296 \<noteq> Inr (b, g')"
    using NewBoardRand_permutation[of 4294967296 rand_zero runtime_ex, OF _ _ z] by simp
  have d: "\<forall>b g'. NewBoardRand runtime_ex rand_perm_ex (- 2) \<noteq> Inr (b, g')"
    using NewBoardRand_permutation[of "- 2" rand_perm_ex runtime_ex, OF _ _ s(2)] by simp
  from s z rt g a b c d NewBoardRand_ex show ?thesis by simp
qed

text \<open>
  Size 0 is served and gives the empty board. Size \<open>2\<^sup>3\<^sup>2\<close> is positive, its row headers
  are served, and \<open>n * n\<close> wraps around to 0: the permutation is empty and the first slice
  is out of range.
\<close>

theorem NewBoardRand_zero_counterexample:
  "NewBoardRand runtime_ex rand_zero 0 = Inr (\<lparr>size = 0, state = []\<rparr>, rand_zero\<lparr>calls := 1\<rparr>)
   \<and> serves_rows runtime_ex 4294967296
   \<and> NewBoardRand runtime_ex rand_zero 4294967296 = Inl IndexOutOfRange"
  by (simp add: NewBoardRand_def make_sized_def Perm_served runtime_ex_def rand_zero_def
      NewBoardRand_rows.simps [of 0] NewBoardRand_rows_empty wrap64_def)

section \<open>Symmetry of the diff scorer\<close>

lemma mismatches_valid:
  assumes "valid_board b" "i < nat (size b)" "j < nat (size b)" "state b ! i ! j = 0"
  shows "mismatches b target =
           {(r, k). r < nat (size b) \<and> k < nat (size b) \<and> state b ! r ! k \<noteq> state target ! r ! k}
             - {(i, j)}"
proof -
  have z: "\<And>r k. r < nat (size b) \<Longrightarrow> k < nat (size b) \<Longrightarrow>
      state b ! r ! k = 0 \<longleftrightarrow> (r, k) = (i, j)"
    using valid_board_cell_inj[OF assms(1) _ _ assms(2,3)] assms(4) by auto
  show ?thesis
    unfolding mismatches_def mismatch_def using z by auto
qed

lemma DiffN_sym_valid:
  assumes "valid_board b" "valid_board t" "size b = size t"
  shows "DiffN b t = DiffN t b"
proof -
  let ?n = "nat (size b)"
  let ?D = "{(r, k). r < ?n \<and> k < ?n \<and> state b ! r ! k \<noteq> state t ! r ! k}"
  have D': "{(r, k). r < nat (size t) \<and> k < nat (size t) \<and> state t ! r ! k \<noteq> state b ! r ! k} = ?D"
    using assms(3) by auto
  have "?D \<subseteq> {..<?n} \<times> {..<?n}" by auto
  then have fin: "finite ?D" by (rule finite_subset) simp
  have pos: "0 < size b * size b" "0 < size t * size t"
    using assms(1,2) by (auto simp: valid_board_def)
  from valid_board_has[OF assms(1), of 0] pos
  obtain i j where b0: "i < ?n" "j < ?n" "state b ! i ! j = 0" by auto
  from valid_board_has[OF assms(2), of 0] pos assms(3)
  obtain i' j' where t0: "i' < ?n" "j' < ?n" "state t ! i' ! j' = 0" by auto
  have mb: "mismatches b t = ?D - {(i, j)}"
    using mismatches_valid[OF assms(1) b0] by simp
  have mt: "mismatches t b = ?D - {(i', j')}"
    using mismatches_valid[OF assms(2), of i' j' b] t0 assms(3) D' by simp
  have "card (mismatches b t) = card (mismatches t b)"
  proof (cases "(i, j) = (i', j')")
    case True
    with mb mt show ?thesis by simp
  next
    case False
    have "state t ! i ! j \<noteq> 0"
      using valid_board_cell_inj[OF assms(2), of i j i' j'] b0 t0 assms(3) False by auto
    then have inb: "(i, j) \<in> ?D" using b0 by auto
    have "state b ! i' ! j' \<noteq> 0"
      using valid_board_cell_inj[OF assms(1), of i' j' i j] b0 t0 False by auto
    then have int: "(i', j') \<in> ?D" using t0 by auto
    from inb int fin show ?thesis unfolding mb mt by simp
  qed
  moreover have "wf_board b" "wf_board t"
    using assms(1,2) by (auto simp: valid_board_def)
  ultimately show ?thesis
    using DiffN_count[of b t] DiffN_count[of t b] assms(3) by simp
qed

text \<open>
  C10 (amended). On valid boards of the same size \<open>DiffN\<close> is symmetric: each board has
  one blank, and each direction leaves exactly one blank cell out of the same set of
  differing cells. The asymmetry of the blank exclusion shows only on boards that are not
  permutations, such as \<open>[[0]]\<close> against \<open>[[1]]\<close>.
\<close>

theorem DiffN_symmetric_on_valid:
  "(valid_board b \<and> valid_board t \<and> size b = size t \<longrightarrow> DiffN b t = DiffN t b)
   \<and> wf_board board_one \<and> wf_board board_tile1 \<and> size board_one = size board_tile1
   \<and> DiffN board_one board_tile1 = Inr 0 \<and> DiffN board_tile1 board_one = Inr 1"
proof (intro conjI impI)
  assume "valid_board b \<and> valid_board t \<and> size b = size t"
  then show "DiffN b t = DiffN t b" by (simp add: DiffN_sym_valid)
next
  show "wf_board board_one" by (simp add: wf_board_def board_one_def)
  show "wf_board board_tile1" by (simp add: wf_board_def board_tile1_def)
  show "size board_one = size board_tile1" by (simp add: board_one_def board_tile1_def)
  show "DiffN board_one board_tile1 = Inr 0"
    by (simp add: DiffN_def DiffN_rows.simps DiffN_cols.simps cell_def idx_def
        board_one_def board_tile1_def)
  show "DiffN board_tile1 board_one = Inr 1"
    by (simp add: DiffN_def DiffN_rows.simps DiffN_cols.simps cell_def idx_def
        board_one_def board_tile1_def)
qed

theorem DiffN_symmetric_on_valid_witness:
  "valid_board board_a \<and> valid_board board_goal2 \<and> size board_a = size board_goal2
   \<and> DiffN board_a board_goal2 = Inr 1 \<and> DiffN board_goal2 board_a = Inr 1"
proof -
  have h: "valid_board board_a \<and> valid_board board_goal2 \<and> size board_a = size board_goal2"
    using valid_board_a valid_board_goal2 by (simp add: board_a_def board_goal2_def)
  from DiffN_symmetric_on_valid[of board_a board_goal2] h DiffN_a_goal2
  show ?thesis by simp
qed

theorem DiffN_asymmetric_valid_counterexample:
  "\<not> (\<exists>b t. valid_board b \<and> valid_board t \<and> size b = size t \<and> DiffN b t \<noteq> DiffN t b)"
  using DiffN_sym_valid by blast

end
